theory Spec2Isabelle
  imports Main
begin

section \<open>The document\<close>

text \<open>
  \<^verbatim>\<open>script.js\<close> works on the page's document. An element is modelled by the three things
  the script reads or writes: its \<^verbatim>\<open>id\<close> attribute, its class list and its
  \<^verbatim>\<open>data-section\<close> attribute. A document is the list of its elements in tree order, and an
  element is referred to by its position in that list.
\<close>

record element =
  elem_id :: "string option"
  classList :: "string list"
  data_section :: "string option"

type_synonym document = "element list"

text \<open>\<^verbatim>\<open>classList.remove(c)\<close> and \<^verbatim>\<open>classList.add(c)\<close>: the class list is a token set.\<close>

definition classList_remove :: "string \<Rightarrow> element \<Rightarrow> element" where
  "classList_remove c e = e\<lparr>classList := removeAll c (classList e)\<rparr>"

definition classList_add :: "string \<Rightarrow> element \<Rightarrow> element" where
  "classList_add c e =
     (if c \<in> set (classList e) then e else e\<lparr>classList := classList e @ [c]\<rparr>)"

definition is_active :: "element \<Rightarrow> bool" where
  "is_active e = (''active'' \<in> set (classList e))"

definition remove_active :: "nat \<Rightarrow> document \<Rightarrow> document" where
  "remove_active i d = d[i := classList_remove ''active'' (d ! i)]"

definition add_active :: "nat \<Rightarrow> document \<Rightarrow> document" where
  "add_active i d = d[i := classList_add ''active'' (d ! i)]"

text \<open>
  \<^verbatim>\<open>document.getElementById(s)\<close>: the first element in tree order whose id is \<open>s\<close>, or
  \<^verbatim>\<open>null\<close>. An empty \<^verbatim>\<open>id\<close> attribute gives the element no id, so the empty string
  finds nothing.
\<close>

fun getElementById :: "document \<Rightarrow> string \<Rightarrow> nat option" where
  "getElementById [] s = None"
| "getElementById (e # es) s =
     (if elem_id e = Some s \<and> s \<noteq> [] then Some 0
      else map_option Suc (getElementById es s))"

text \<open>
  \<^verbatim>\<open>getAttribute\<close> returns \<^verbatim>\<open>null\<close> for a missing attribute, and
  \<^verbatim>\<open>getElementById(null)\<close> looks for the id \<^verbatim>\<open>"null"\<close>.
\<close>

definition dom_string :: "string option \<Rightarrow> string" where
  "dom_string a = (case a of None \<Rightarrow> ''null'' | Some s \<Rightarrow> s)"

text \<open>\<^verbatim>\<open>document.querySelectorAll('.c')\<close>: the static list of the elements of class \<open>c\<close>.\<close>

definition querySelectorAll_class :: "document \<Rightarrow> string \<Rightarrow> nat list" where
  "querySelectorAll_class d c = filter (\<lambda>i. c \<in> set (classList (d ! i))) [0..<length d]"

text \<open>\<^verbatim>\<open>document.querySelector('[data-section="s"]')\<close>: the first element with that attribute value.\<close>

fun querySelector_data_section :: "document \<Rightarrow> string \<Rightarrow> nat option" where
  "querySelector_data_section [] s = None"
| "querySelector_data_section (e # es) s =
     (if data_section e = Some s then Some 0
      else map_option Suc (querySelector_data_section es s))"

section \<open>Navigation\<close>

text \<open>
  The first \<^verbatim>\<open>DOMContentLoaded\<close> handler captures two node lists, \<^verbatim>\<open>navLinks\<close> and
  \<^verbatim>\<open>sections\<close>, and they stay what they were when the handler ran. The page is the
  document together with these two lists.
\<close>

record page =
  doc :: document
  navLinks :: "nat list"
  sections :: "nat list"

text \<open>
  Lines 2 to 34: the lists are taken, the click handlers are installed (they are the
  function \<open>click\<close> below), and the dashboard link and section are made active when both
  exist.
\<close>

definition on_DOMContentLoaded :: "document \<Rightarrow> page" where
  "on_DOMContentLoaded d =
     \<lparr>doc =
        (case querySelector_data_section d ''dashboard'' of
           None \<Rightarrow> d
         | Some dashboardLink \<Rightarrow>
             (case getElementById d ''dashboard'' of
                None \<Rightarrow> d
              | Some dashboardSection \<Rightarrow>
                  add_active dashboardSection (add_active dashboardLink d))),
      navLinks = querySelectorAll_class d ''nav-link'',
      sections = querySelectorAll_class d ''content-section''\<rparr>"

text \<open>
  Lines 8 to 24, the click handler of the link \<open>this\<close>. Only the elements of
  \<^verbatim>\<open>navLinks\<close> have the handler. The class is removed from every link and every section,
  added to the clicked link, and then added to the element that the link's
  \<^verbatim>\<open>data-section\<close> names, if there is one.
\<close>

definition click :: "nat \<Rightarrow> page \<Rightarrow> page" where
  "click this p =
     (if this \<notin> set (navLinks p) then p
      else
        let d1 = fold remove_active (navLinks p) (doc p);
            d2 = fold remove_active (sections p) d1;
            d3 = add_active this d2;
            sectionId = data_section (d3 ! this)
        in (case getElementById d3 (dom_string sectionId) of
              None \<Rightarrow> p\<lparr>doc := d3\<rparr>
            | Some targetSection \<Rightarrow> p\<lparr>doc := add_active targetSection d3\<rparr>))"

text \<open>
  The same handler with the one way in which it could fail. In JavaScript a property
  access on \<^verbatim>\<open>null\<close> raises a \<^verbatim>\<open>TypeError\<close>, so
  \<^verbatim>\<open>targetSection.classList.add('active')\<close> raises when the lookup has found nothing. The
  handler reaches that statement only behind the guard \<^verbatim>\<open>if (targetSection)\<close> of line 21.
  No other statement of the handler can raise, and the script has no error result of its
  own.
\<close>

datatype js_error = TypeError

definition classList_add_active_on :: "nat option \<Rightarrow> document \<Rightarrow> js_error + document" where
  "classList_add_active_on target d =
     (case target of None \<Rightarrow> Inl TypeError | Some t \<Rightarrow> Inr (add_active t d))"

definition click_handler :: "nat \<Rightarrow> page \<Rightarrow> js_error + page" where
  "click_handler this p =
     (if this \<notin> set (navLinks p) then Inr p
      else
        let d1 = fold remove_active (navLinks p) (doc p);
            d2 = fold remove_active (sections p) d1;
            d3 = add_active this d2;
            sectionId = data_section (d3 ! this);
            targetSection = getElementById d3 (dom_string sectionId)
        in if targetSection \<noteq> None
           then (case classList_add_active_on targetSection d3 of
                   Inl e \<Rightarrow> Inl e
                 | Inr d4 \<Rightarrow> Inr (p\<lparr>doc := d4\<rparr>))
           else Inr (p\<lparr>doc := d3\<rparr>))"

text \<open>A sequence of clicks, the first of the list first.\<close>

fun clicks :: "nat list \<Rightarrow> page \<Rightarrow> page" where
  "clicks [] p = p"
| "clicks (c # cs) p = clicks cs (click c p)"

text \<open>The observable navigation state: the sections and the links that carry the class.\<close>

definition active_sections :: "page \<Rightarrow> nat list" where
  "active_sections p = filter (\<lambda>j. is_active (doc p ! j)) (sections p)"

definition active_links :: "page \<Rightarrow> nat list" where
  "active_links p = filter (\<lambda>j. is_active (doc p ! j)) (navLinks p)"

text \<open>
  The section that a click on the link \<open>this\<close> selects: the element found for the link's
  \<^verbatim>\<open>data-section\<close>. The identifier is a known section when that element is one of
  \<^verbatim>\<open>sections\<close>.
\<close>

definition target_of :: "page \<Rightarrow> nat \<Rightarrow> nat option" where
  "target_of p this = getElementById (doc p) (dom_string (data_section (doc p ! this)))"

definition known_section :: "page \<Rightarrow> nat \<Rightarrow> bool" where
  "known_section p this =
     (case target_of p this of None \<Rightarrow> False | Some j \<Rightarrow> j \<in> set (sections p))"

text \<open>
  The node lists hold elements of the document, and a link is not itself a content
  section.
\<close>

definition page_ok :: "page \<Rightarrow> bool" where
  "page_ok p =
     (list_all (\<lambda>i. i < length (doc p)) (navLinks p) \<and>
      list_all (\<lambda>i. i < length (doc p)) (sections p) \<and>
      list_all (\<lambda>i. i \<notin> set (sections p)) (navLinks p))"

text \<open>
  Two small documents. \<open>console_doc\<close> has a link and a section for the dashboard and for
  EC2. \<open>dangling_doc\<close> has a second link whose \<^verbatim>\<open>data-section\<close> is the id of no element,
  and \<open>unlabelled_doc\<close> a second link with no \<^verbatim>\<open>data-section\<close> attribute at all.
\<close>

definition nav_link :: "string option \<Rightarrow> element" where
  "nav_link s = \<lparr>elem_id = None, classList = [''nav-link''], data_section = s\<rparr>"

definition content_section :: "string \<Rightarrow> element" where
  "content_section s =
     \<lparr>elem_id = Some s, classList = [''content-section''], data_section = None\<rparr>"

definition console_doc :: document where
  "console_doc =
     [nav_link (Some ''dashboard''), nav_link (Some ''ec2''),
      content_section ''dashboard'', content_section ''ec2'']"

definition dangling_doc :: document where
  "dangling_doc =
     [nav_link (Some ''dashboard''), nav_link (Some ''billing''),
      content_section ''dashboard'']"

definition unlabelled_doc :: document where
  "unlabelled_doc =
     [nav_link (Some ''dashboard''), nav_link None, content_section ''dashboard'']"

section \<open>Dialogs and the deployment workflow\<close>

text \<open>
  The script talks to the user through \<^verbatim>\<open>confirm\<close>, \<^verbatim>\<open>alert\<close> and a download, and
  it can set a timer. Each call is recorded as an event, in the order the calls are made;
  a \<^verbatim>\<open>confirm\<close> is recorded with the answer it returned, a timer with its delay in
  milliseconds and the action it stands for. Both dialogs are synchronous: the script
  goes on only when the dialog has been answered.
\<close>

datatype event =
  Confirm string bool
| Alert string
| Download string string string
| Timeout nat string

text \<open>
  Message texts. The source file is UTF-8; the bullet and the check mark are written as
  their three bytes each.
\<close>

definition nl :: string where
  "nl = [CHR 0x0A]"

definition bullet :: string where
  "bullet = [CHR 0xE2, CHR 0x80, CHR 0xA2]"

definition check_mark :: string where
  "check_mark = [CHR 0xE2, CHR 0x9C, CHR 0x93]"

text \<open>Lines 99 to 112, the argument of \<^verbatim>\<open>confirm\<close>.\<close>

definition deploy_summary :: string where
  "deploy_summary =
     ''Deploy Multi-Tier Architecture'' @ nl @ nl @
     ''This will create:'' @ nl @
     bullet @ '' VPC with public and private subnets across 3 AZs'' @ nl @
     bullet @ '' Internet Gateway and NAT Gateways'' @ nl @
     bullet @ '' Security Groups for each tier'' @ nl @
     bullet @ '' Application Load Balancers for web and app tiers'' @ nl @
     bullet @ '' EC2 instances for web and application tiers'' @ nl @
     bullet @ '' RDS database with Multi-AZ'' @ nl @
     bullet @ '' Route 53 DNS configuration'' @ nl @ nl @
     ''Estimated time: 15-20 minutes'' @ nl @
     ''Estimated cost: ~$200-300/month'' @ nl @ nl @
     ''Do you want to proceed?''"

text \<open>Lines 120 to 132, the argument of \<^verbatim>\<open>alert\<close> in \<^verbatim>\<open>showDeploymentProgress\<close>.\<close>

definition progress_message :: string where
  "progress_message =
     ''Deployment Started!'' @ nl @ nl @
     ''In a real AWS console, you would see:'' @ nl @
     check_mark @ '' Creating VPC...'' @ nl @
     check_mark @ '' Creating subnets...'' @ nl @
     check_mark @ '' Creating Internet Gateway...'' @ nl @
     check_mark @ '' Creating NAT Gateways...'' @ nl @
     check_mark @ '' Creating security groups...'' @ nl @
     check_mark @ '' Launching EC2 instances...'' @ nl @
     check_mark @ '' Creating load balancers...'' @ nl @
     check_mark @ '' Creating RDS database...'' @ nl @
     check_mark @ '' Configuring Route 53...'' @ nl @ nl @
     ''Deployment would complete in 15-20 minutes.'' @ nl @
     ''You would receive notifications at each step.''"

definition showDeploymentProgress :: "event list \<Rightarrow> event list" where
  "showDeploymentProgress log = log @ [Alert progress_message]"

text \<open>
  Lines 98 to 117. The confirmation collaborator is the function \<open>confirm\<close> from the
  summary shown to the answer given.
\<close>

definition deployArchitecture :: "(string \<Rightarrow> bool) \<Rightarrow> event list \<Rightarrow> event list" where
  "deployArchitecture confirm log =
     (let confirmation = confirm deploy_summary;
          log1 = log @ [Confirm deploy_summary confirmation]
      in if confirmation then showDeploymentProgress log1 else log1)"

text \<open>
  Lines 246 to 252, \<^verbatim>\<open>simulateAPICall(action, duration = 1000)\<close>: the one place where
  the script simulates work that takes time. It sets a timer of the given delay, one
  second when none is given, after which the call counts as done. No function of the
  script calls it.
\<close>

definition simulateAPICall :: "string \<Rightarrow> nat option \<Rightarrow> event list \<Rightarrow> event list" where
  "simulateAPICall action duration log =
     log @ [Timeout (case duration of None \<Rightarrow> 1000 | Some d \<Rightarrow> d) action]"

text \<open>The simulated calls of a log, in order: the actions of its timers.\<close>

fun timeout_action :: "event \<Rightarrow> string list" where
  "timeout_action (Timeout delay action) = [action]"
| "timeout_action e = []"

definition simulated_calls :: "event list \<Rightarrow> string list" where
  "simulated_calls log = concat (map timeout_action log)"

text \<open>
  The steps that a message lists: its lines that begin with a check mark and a space,
  without that prefix. This reads the text of a message and says nothing about what the
  script has done.
\<close>

fun split_on :: "char \<Rightarrow> string \<Rightarrow> string list" where
  "split_on sep [] = [[]]"
| "split_on sep (c # cs) =
     (if c = sep then [] # split_on sep cs
      else (case split_on sep cs of [] \<Rightarrow> [[c]] | l # ls \<Rightarrow> (c # l) # ls))"

definition split_lines :: "string \<Rightarrow> string list" where
  "split_lines s = split_on (CHR 0x0A) s"

definition listed_steps :: "string \<Rightarrow> string list" where
  "listed_steps msg =
     map (drop 4) (filter (\<lambda>l. take 4 l = check_mark @ '' '') (split_lines msg))"

section \<open>JSON values and \<^verbatim>\<open>JSON.stringify\<close>\<close>

text \<open>
  The values that \<^verbatim>\<open>architectureConfig\<close> is built from: numbers (all of them
  integers), strings, booleans, arrays, and objects, whose properties keep the order in
  which they were written.
\<close>

datatype json =
  JNumber int
| JString string
| JBool bool
| JArray "json list"
| JObject "(string \<times> json) list"

text \<open>The decimal notation of an integer, as \<^verbatim>\<open>JSON.stringify\<close> prints it.\<close>

definition digit_char :: "nat \<Rightarrow> char" where
  "digit_char n = ''0123456789'' ! n"

fun show_nat :: "nat \<Rightarrow> string" where
  "show_nat n = (if n < 10 then [digit_char n] else show_nat (n div 10) @ [digit_char (n mod 10)])"

declare show_nat.simps [simp del]

definition number_to_string :: "int \<Rightarrow> string" where
  "number_to_string n = (if n < 0 then ''-'' @ show_nat (nat (- n)) else show_nat (nat n))"

text \<open>
  \<^verbatim>\<open>QuoteJSONString\<close>: the string between double quotes, with the double quote, the
  backslash and the control characters escaped.
\<close>

definition hex_digit :: "nat \<Rightarrow> char" where
  "hex_digit n = ''0123456789abcdef'' ! n"

definition json_escape :: "char \<Rightarrow> string" where
  "json_escape c =
     (if c = CHR 0x08 then [CHR 0x5C, CHR ''b'']
      else if c = CHR 0x09 then [CHR 0x5C, CHR ''t'']
      else if c = CHR 0x0A then [CHR 0x5C, CHR ''n'']
      else if c = CHR 0x0C then [CHR 0x5C, CHR ''f'']
      else if c = CHR 0x0D then [CHR 0x5C, CHR ''r'']
      else if c = CHR 0x22 then [CHR 0x5C, CHR 0x22]
      else if c = CHR 0x5C then [CHR 0x5C, CHR 0x5C]
      else if (of_char c :: nat) < 32
        then [CHR 0x5C, CHR ''u'', CHR ''0'', CHR ''0'',
              hex_digit (of_char c div 16), hex_digit (of_char c mod 16)]
      else [c])"

definition QuoteJSONString :: "string \<Rightarrow> string" where
  "QuoteJSONString s = [CHR 0x22] @ concat (map json_escape s) @ [CHR 0x22]"

fun join :: "string \<Rightarrow> string list \<Rightarrow> string" where
  "join sep [] = []"
| "join sep [x] = x"
| "join sep (x # y # ys) = x @ sep @ join sep (y # ys)"

text \<open>
  \<^verbatim>\<open>JSON.stringify(value, null, 2)\<close>: the gap is two spaces; \<open>indent\<close> is the current
  indentation. A non-empty array or object puts each member on a line of its own, one
  gap deeper, and the closing bracket on a line at the current indentation.
\<close>

definition gap :: string where
  "gap = ''  ''"

fun SerializeJSONProperty :: "string \<Rightarrow> json \<Rightarrow> string" where
  "SerializeJSONProperty indent (JNumber n) = number_to_string n"
| "SerializeJSONProperty indent (JString s) = QuoteJSONString s"
| "SerializeJSONProperty indent (JBool b) = (if b then ''true'' else ''false'')"
| "SerializeJSONProperty indent (JArray vs) =
     (if vs = [] then ''[]''
      else ''['' @ nl @ (indent @ gap) @
           join ('','' @ nl @ (indent @ gap))
             (map (SerializeJSONProperty (indent @ gap)) vs) @
           nl @ indent @ '']'')"
| "SerializeJSONProperty indent (JObject kvs) =
     (if kvs = [] then ''{}''
      else ''{'' @ nl @ (indent @ gap) @
           join ('','' @ nl @ (indent @ gap))
             (map (\<lambda>(k, v). QuoteJSONString k @ '': '' @
                     SerializeJSONProperty (indent @ gap) v) kvs) @
           nl @ indent @ ''}'')"

definition JSON_stringify :: "json \<Rightarrow> string" where
  "JSON_stringify v = SerializeJSONProperty [] v"

section \<open>The exported architecture\<close>

text \<open>Lines 136 to 194, the object literal, property by property.\<close>

definition architectureConfig :: json where
  "architectureConfig =
     JObject
      [(''vpc'', JObject
          [(''cidr'', JString ''10.0.0.0/16''),
           (''name'', JString ''production-vpc''),
           (''region'', JString ''us-east-1'')]),
       (''subnets'', JArray
          [JObject [(''name'', JString ''public-subnet-1a''), (''cidr'', JString ''10.0.1.0/24''),
                    (''az'', JString ''us-east-1a''), (''type'', JString ''public'')],
           JObject [(''name'', JString ''private-subnet-1b''), (''cidr'', JString ''10.0.2.0/24''),
                    (''az'', JString ''us-east-1b''), (''type'', JString ''private'')],
           JObject [(''name'', JString ''private-subnet-1c''), (''cidr'', JString ''10.0.3.0/24''),
                    (''az'', JString ''us-east-1c''), (''type'', JString ''private'')]]),
       (''securityGroups'', JArray
          [JObject
             [(''name'', JString ''web-tier-sg''),
              (''inbound'', JArray
                 [JObject [(''port'', JNumber 80), (''protocol'', JString ''tcp''),
                           (''source'', JString ''0.0.0.0/0'')],
                  JObject [(''port'', JNumber 443), (''protocol'', JString ''tcp''),
                           (''source'', JString ''0.0.0.0/0'')]])],
           JObject
             [(''name'', JString ''app-tier-sg''),
              (''inbound'', JArray
                 [JObject [(''port'', JNumber 8080), (''protocol'', JString ''tcp''),
                           (''source'', JString ''web-tier-sg'')]])],
           JObject
             [(''name'', JString ''db-tier-sg''),
              (''inbound'', JArray
                 [JObject [(''port'', JNumber 3306), (''protocol'', JString ''tcp''),
                           (''source'', JString ''app-tier-sg'')]])]]),
       (''loadBalancers'', JArray
          [JObject [(''name'', JString ''web-tier-alb''), (''type'', JString ''application''),
                    (''scheme'', JString ''internet-facing'')],
           JObject [(''name'', JString ''app-tier-alb''), (''type'', JString ''application''),
                    (''scheme'', JString ''internal'')]]),
       (''ec2Instances'', JArray
          [JObject [(''name'', JString ''web-server-01''), (''type'', JString ''t3.medium''),
                    (''tier'', JString ''web'')],
           JObject [(''name'', JString ''web-server-02''), (''type'', JString ''t3.medium''),
                    (''tier'', JString ''web'')],
           JObject [(''name'', JString ''app-server-01''), (''type'', JString ''t3.large''),
                    (''tier'', JString ''app'')],
           JObject [(''name'', JString ''app-server-02''), (''type'', JString ''t3.large''),
                    (''tier'', JString ''app'')],
           JObject [(''name'', JString ''app-server-03''), (''type'', JString ''t3.large''),
                    (''tier'', JString ''app'')]]),
       (''rds'', JObject
          [(''identifier'', JString ''prod-db-01''),
           (''engine'', JString ''mysql''),
           (''version'', JString ''8.0.32''),
           (''instanceClass'', JString ''db.r5.large''),
           (''multiAZ'', JBool True),
           (''storage'', JNumber 100)]),
       (''route53'', JObject
          [(''domain'', JString ''example.com''),
           (''records'', JArray
              [JObject [(''name'', JString ''www''), (''type'', JString ''CNAME''),
                        (''value'', JString ''web-tier-alb'')],
               JObject [(''name'', JString ''api''), (''type'', JString ''CNAME''),
                        (''value'', JString ''app-tier-alb'')]])])]"

text \<open>Lines 207 to 218, the argument of the final \<^verbatim>\<open>alert\<close>.\<close>

definition export_message :: string where
  "export_message =
     ''Architecture configuration exported!'' @ nl @ nl @
     ''The JSON file contains:'' @ nl @
     bullet @ '' VPC and subnet configurations'' @ nl @
     bullet @ '' Security group rules'' @ nl @
     bullet @ '' Load balancer settings'' @ nl @
     bullet @ '' EC2 instance specifications'' @ nl @
     bullet @ '' RDS database configuration'' @ nl @
     bullet @ '' Route 53 DNS records'' @ nl @ nl @
     ''This can be used with Infrastructure as Code tools like:'' @ nl @
     bullet @ '' AWS CloudFormation'' @ nl @
     bullet @ '' Terraform'' @ nl @
     bullet @ '' AWS CDK''"

text \<open>
  What \<^verbatim>\<open>exportArchitecture\<close> touches in the browser: the anchors that the script has
  appended to \<^verbatim>\<open>document.body\<close>, the store of object URLs, and the events so far. An
  object URL is a number; \<^verbatim>\<open>createObjectURL\<close> returns one that is not in the store.
\<close>

record blob =
  blob_parts :: string
  blob_type :: string

record anchor =
  href :: nat
  download :: string

record browser =
  body_children :: "anchor list"
  url_store :: "(nat \<times> blob) list"
  events :: "event list"

definition fresh_url :: "(nat \<times> blob) list \<Rightarrow> nat" where
  "fresh_url store = Suc (fold max (map fst store) 0)"

definition createObjectURL :: "blob \<Rightarrow> browser \<Rightarrow> nat \<times> browser" where
  "createObjectURL b w =
     (let url = fresh_url (url_store w) in (url, w\<lparr>url_store := (url, b) # url_store w\<rparr>))"

definition revokeObjectURL :: "nat \<Rightarrow> browser \<Rightarrow> browser" where
  "revokeObjectURL url w = w\<lparr>url_store := filter (\<lambda>(u, b). u \<noteq> url) (url_store w)\<rparr>"

definition appendChild :: "anchor \<Rightarrow> browser \<Rightarrow> nat \<times> browser" where
  "appendChild a w =
     (length (body_children w), w\<lparr>body_children := body_children w @ [a]\<rparr>)"

definition removeChild :: "nat \<Rightarrow> browser \<Rightarrow> browser" where
  "removeChild i w =
     w\<lparr>body_children := take i (body_children w) @ drop (Suc i) (body_children w)\<rparr>"

text \<open>
  A click on an anchor with a \<^verbatim>\<open>download\<close> attribute saves what its \<^verbatim>\<open>href\<close> refers
  to under the suggested name; nothing is saved when the object URL is not in the store.
\<close>

definition anchor_click :: "anchor \<Rightarrow> browser \<Rightarrow> browser" where
  "anchor_click a w =
     (case map_of (url_store w) (href a) of
        None \<Rightarrow> w
      | Some b \<Rightarrow> w\<lparr>events := events w @ [Download (download a) (blob_type b) (blob_parts b)]\<rparr>)"

definition alert :: "string \<Rightarrow> browser \<Rightarrow> browser" where
  "alert msg w = w\<lparr>events := events w @ [Alert msg]\<rparr>"

text \<open>Lines 196 to 218.\<close>

definition exportArchitecture :: "browser \<Rightarrow> browser" where
  "exportArchitecture w =
     (let jsonStr = JSON_stringify architectureConfig;
          blob = \<lparr>blob_parts = jsonStr, blob_type = ''application/json''\<rparr>;
          (url, w1) = createObjectURL blob w;
          a = \<lparr>href = url, download = ''aws-architecture-config.json''\<rparr>;
          (i, w2) = appendChild a w1;
          w3 = anchor_click a w2;
          w4 = removeChild i w3;
          w5 = revokeObjectURL url w4
      in alert export_message w5)"

section \<open>The configuration model\<close>

text \<open>
  Modelled from the spec: the script has no configuration model apart from the object
  literal in \<^verbatim>\<open>exportArchitecture\<close>. The entities are those of section 3 of the
  specification, with the property names of the literal and of the export schema of
  section 6.
\<close>

datatype visibility = Public | Private

datatype lb_kind = Application | Network | Classic

datatype exposure = InternetFacing | Internal

datatype tier = Web | App

record vpc =
  vpc_cidr :: string
  vpc_name :: string
  vpc_region :: string

record subnet =
  subnet_name :: string
  subnet_cidr :: string
  subnet_az :: string
  subnet_type :: visibility

record rule =
  rule_port :: int
  rule_protocol :: string
  rule_source :: string

record securityGroup =
  sg_name :: string
  sg_inbound :: "rule list"

record loadBalancer =
  lb_name :: string
  lb_type :: lb_kind
  lb_scheme :: exposure

record ec2Instance =
  instance_name :: string
  instance_type :: string
  instance_tier :: tier

record rds =
  rds_identifier :: string
  rds_engine :: string
  rds_version :: string
  rds_instanceClass :: string
  rds_multiAZ :: bool
  rds_storage :: int

record dns_record =
  record_name :: string
  record_type :: string
  record_value :: string

record route53 =
  zone_domain :: string
  zone_records :: "dns_record list"

record ConfigModel =
  cfg_vpc :: vpc
  cfg_subnets :: "subnet list"
  cfg_securityGroups :: "securityGroup list"
  cfg_loadBalancers :: "loadBalancer list"
  cfg_ec2Instances :: "ec2Instance list"
  cfg_rds :: rds
  cfg_route53 :: route53

text \<open>
  Modelled from the spec: the default three-tier model of section 8, with the values of
  the object literal.
\<close>

definition defaultModel :: ConfigModel where
  "defaultModel =
     \<lparr>cfg_vpc = \<lparr>vpc_cidr = ''10.0.0.0/16'', vpc_name = ''production-vpc'',
                 vpc_region = ''us-east-1''\<rparr>,
      cfg_subnets =
        [\<lparr>subnet_name = ''public-subnet-1a'', subnet_cidr = ''10.0.1.0/24'',
          subnet_az = ''us-east-1a'', subnet_type = Public\<rparr>,
         \<lparr>subnet_name = ''private-subnet-1b'', subnet_cidr = ''10.0.2.0/24'',
          subnet_az = ''us-east-1b'', subnet_type = Private\<rparr>,
         \<lparr>subnet_name = ''private-subnet-1c'', subnet_cidr = ''10.0.3.0/24'',
          subnet_az = ''us-east-1c'', subnet_type = Private\<rparr>],
      cfg_securityGroups =
        [\<lparr>sg_name = ''web-tier-sg'',
          sg_inbound =
            [\<lparr>rule_port = 80, rule_protocol = ''tcp'', rule_source = ''0.0.0.0/0''\<rparr>,
             \<lparr>rule_port = 443, rule_protocol = ''tcp'', rule_source = ''0.0.0.0/0''\<rparr>]\<rparr>,
         \<lparr>sg_name = ''app-tier-sg'',
          sg_inbound =
            [\<lparr>rule_port = 8080, rule_protocol = ''tcp'', rule_source = ''web-tier-sg''\<rparr>]\<rparr>,
         \<lparr>sg_name = ''db-tier-sg'',
          sg_inbound =
            [\<lparr>rule_port = 3306, rule_protocol = ''tcp'', rule_source = ''app-tier-sg''\<rparr>]\<rparr>],
      cfg_loadBalancers =
        [\<lparr>lb_name = ''web-tier-alb'', lb_type = Application, lb_scheme = InternetFacing\<rparr>,
         \<lparr>lb_name = ''app-tier-alb'', lb_type = Application, lb_scheme = Internal\<rparr>],
      cfg_ec2Instances =
        [\<lparr>instance_name = ''web-server-01'', instance_type = ''t3.medium'', instance_tier = Web\<rparr>,
         \<lparr>instance_name = ''web-server-02'', instance_type = ''t3.medium'', instance_tier = Web\<rparr>,
         \<lparr>instance_name = ''app-server-01'', instance_type = ''t3.large'', instance_tier = App\<rparr>,
         \<lparr>instance_name = ''app-server-02'', instance_type = ''t3.large'', instance_tier = App\<rparr>,
         \<lparr>instance_name = ''app-server-03'', instance_type = ''t3.large'', instance_tier = App\<rparr>],
      cfg_rds =
        \<lparr>rds_identifier = ''prod-db-01'', rds_engine = ''mysql'', rds_version = ''8.0.32'',
         rds_instanceClass = ''db.r5.large'', rds_multiAZ = True, rds_storage = 100\<rparr>,
      cfg_route53 =
        \<lparr>zone_domain = ''example.com'',
         zone_records =
           [\<lparr>record_name = ''www'', record_type = ''CNAME'', record_value = ''web-tier-alb''\<rparr>,
            \<lparr>record_name = ''api'', record_type = ''CNAME'', record_value = ''app-tier-alb''\<rparr>]\<rparr>\<rparr>"

text \<open>
  Modelled from the spec: the object that \<^verbatim>\<open>exportArchitecture\<close> writes as a literal, for
  any model. The property names, their order and the nesting are those of the literal.
\<close>

definition visibility_string :: "visibility \<Rightarrow> string" where
  "visibility_string t = (case t of Public \<Rightarrow> ''public'' | Private \<Rightarrow> ''private'')"

definition lb_kind_string :: "lb_kind \<Rightarrow> string" where
  "lb_kind_string k =
     (case k of Application \<Rightarrow> ''application'' | Network \<Rightarrow> ''network'' | Classic \<Rightarrow> ''classic'')"

definition exposure_string :: "exposure \<Rightarrow> string" where
  "exposure_string x = (case x of InternetFacing \<Rightarrow> ''internet-facing'' | Internal \<Rightarrow> ''internal'')"

definition tier_string :: "tier \<Rightarrow> string" where
  "tier_string t = (case t of Web \<Rightarrow> ''web'' | App \<Rightarrow> ''app'')"

definition vpc_json :: "vpc \<Rightarrow> json" where
  "vpc_json v =
     JObject [(''cidr'', JString (vpc_cidr v)), (''name'', JString (vpc_name v)),
              (''region'', JString (vpc_region v))]"

definition subnet_json :: "subnet \<Rightarrow> json" where
  "subnet_json s =
     JObject [(''name'', JString (subnet_name s)), (''cidr'', JString (subnet_cidr s)),
              (''az'', JString (subnet_az s)),
              (''type'', JString (visibility_string (subnet_type s)))]"

definition rule_json :: "rule \<Rightarrow> json" where
  "rule_json r =
     JObject [(''port'', JNumber (rule_port r)), (''protocol'', JString (rule_protocol r)),
              (''source'', JString (rule_source r))]"

definition securityGroup_json :: "securityGroup \<Rightarrow> json" where
  "securityGroup_json g =
     JObject [(''name'', JString (sg_name g)),
              (''inbound'', JArray (map rule_json (sg_inbound g)))]"

definition loadBalancer_json :: "loadBalancer \<Rightarrow> json" where
  "loadBalancer_json b =
     JObject [(''name'', JString (lb_name b)), (''type'', JString (lb_kind_string (lb_type b))),
              (''scheme'', JString (exposure_string (lb_scheme b)))]"

definition ec2Instance_json :: "ec2Instance \<Rightarrow> json" where
  "ec2Instance_json i =
     JObject [(''name'', JString (instance_name i)), (''type'', JString (instance_type i)),
              (''tier'', JString (tier_string (instance_tier i)))]"

definition rds_json :: "rds \<Rightarrow> json" where
  "rds_json d =
     JObject [(''identifier'', JString (rds_identifier d)),
              (''engine'', JString (rds_engine d)),
              (''version'', JString (rds_version d)),
              (''instanceClass'', JString (rds_instanceClass d)),
              (''multiAZ'', JBool (rds_multiAZ d)),
              (''storage'', JNumber (rds_storage d))]"

definition dns_record_json :: "dns_record \<Rightarrow> json" where
  "dns_record_json r =
     JObject [(''name'', JString (record_name r)), (''type'', JString (record_type r)),
              (''value'', JString (record_value r))]"

definition route53_json :: "route53 \<Rightarrow> json" where
  "route53_json z =
     JObject [(''domain'', JString (zone_domain z)),
              (''records'', JArray (map dns_record_json (zone_records z)))]"

definition config_json :: "ConfigModel \<Rightarrow> json" where
  "config_json m =
     JObject
      [(''vpc'', vpc_json (cfg_vpc m)),
       (''subnets'', JArray (map subnet_json (cfg_subnets m))),
       (''securityGroups'', JArray (map securityGroup_json (cfg_securityGroups m))),
       (''loadBalancers'', JArray (map loadBalancer_json (cfg_loadBalancers m))),
       (''ec2Instances'', JArray (map ec2Instance_json (cfg_ec2Instances m))),
       (''rds'', rds_json (cfg_rds m)),
       (''route53'', route53_json (cfg_route53 m))]"

text \<open>
  Modelled from the spec: \<^verbatim>\<open>toCanonicalArtifact\<close>. The artifact is the text that
  \<^verbatim>\<open>exportArchitecture\<close> hands to the download: \<^verbatim>\<open>JSON.stringify\<close> of the object, with
  the gap of two spaces.
\<close>

definition toCanonicalArtifact :: "ConfigModel \<Rightarrow> string" where
  "toCanonicalArtifact m = JSON_stringify (config_json m)"

section \<open>Reading the artifact\<close>







text \<open>
  Modelled from the spec: a rule's source is either a CIDR or the name of a security
  group. A CIDR is an IPv4 address in dotted decimal notation, a slash and a prefix
  length of at most 32.
\<close>

definition is_digit :: "char \<Rightarrow> bool" where
  "is_digit c = (c \<in> set ''0123456789'')"





section \<open>Validation: the security group cycle check\<close>

text \<open>
  Modelled from the spec: the script has no \<^verbatim>\<open>validate\<close>. Section 4.1 of the
  specification gives the violation kinds and describes the cycle check: a directed graph
  with an edge from \<open>A\<close> to \<open>B\<close> when some inbound rule of the group \<open>A\<close> names the group
  \<open>B\<close> as its source, a depth-first traversal, and a report of the first cycle found, its
  members in traversal order. Only this check of \<^verbatim>\<open>validate\<close> is modelled.
\<close>

datatype violation_kind =
  InvalidCidr
| OverlappingCidr
| InsufficientAzCoverage
| DanglingSecurityGroupReference
| SecurityGroupCycle
| MissingTierSecurityGroup
| MissingLoadBalancerForTier

datatype violation = Violation violation_kind "string list"

definition sg_names :: "ConfigModel \<Rightarrow> string list" where
  "sg_names m = map sg_name (cfg_securityGroups m)"

definition sg_edges :: "ConfigModel \<Rightarrow> (string \<times> string) list" where
  "sg_edges m =
     concat (map (\<lambda>g. map (\<lambda>r. (sg_name g, rule_source r))
                          (filter (\<lambda>r. rule_source r \<in> set (sg_names m)) (sg_inbound g)))
                 (cfg_securityGroups m))"

definition successors :: "(string \<times> string) list \<Rightarrow> string \<Rightarrow> string list" where
  "successors es a = map snd (filter (\<lambda>e. fst e = a) es)"

fun first_some :: "('a \<Rightarrow> 'b option) \<Rightarrow> 'a list \<Rightarrow> 'b option" where
  "first_some f [] = None"
| "first_some f (x # xs) = (case f x of None \<Rightarrow> first_some f xs | Some y \<Rightarrow> Some y)"

text \<open>
  Modelled from the spec: the depth-first traversal of the cycle check, from the node
  \<open>a\<close>. \<open>path\<close> holds the nodes that are being visited, the
  most recent first. Meeting one of them again closes a cycle, which is returned from
  that node on in traversal order. The first argument bounds the depth; a path without
  repetition is never longer than the number of groups, so \<open>find_cycle\<close> gives it one
  more than that.
\<close>

fun dfs :: "nat \<Rightarrow> (string \<times> string) list \<Rightarrow> string list \<Rightarrow> string \<Rightarrow> string list option" where
  "dfs 0 es path a = None"
| "dfs (Suc n) es path a =
     (if a \<in> set path then Some (a # rev (takeWhile (\<lambda>x. x \<noteq> a) path))
      else first_some (dfs n es (a # path)) (successors es a))"

definition find_cycle :: "ConfigModel \<Rightarrow> string list option" where
  "find_cycle m =
     first_some (dfs (Suc (length (sg_names m))) (sg_edges m) []) (sg_names m)"

definition check_security_group_cycle :: "ConfigModel \<Rightarrow> violation list" where
  "check_security_group_cycle m =
     (case find_cycle m of None \<Rightarrow> [] | Some members \<Rightarrow> [Violation SecurityGroupCycle members])"

definition reports_SecurityGroupCycle :: "ConfigModel \<Rightarrow> bool" where
  "reports_SecurityGroupCycle m = (check_security_group_cycle m \<noteq> [])"

text \<open>A model with two groups that name each other.\<close>

definition cyclicModel :: ConfigModel where
  "cyclicModel =
     defaultModel
      \<lparr>cfg_securityGroups :=
         [\<lparr>sg_name = ''A'',
           sg_inbound = [\<lparr>rule_port = 80, rule_protocol = ''tcp'', rule_source = ''B''\<rparr>]\<rparr>,
          \<lparr>sg_name = ''B'',
           sg_inbound = [\<lparr>rule_port = 80, rule_protocol = ''tcp'', rule_source = ''A''\<rparr>]\<rparr>]\<rparr>"

text \<open>
  Two notions for the correctness of the traversal: \<open>chain es xs\<close> says that the list
  \<open>xs\<close>, read from its end to its head, follows edges of the graph; a node is \<open>doomed\<close>
  when a cycle can be reached from it.
\<close>

fun chain :: "(string \<times> string) list \<Rightarrow> string list \<Rightarrow> bool" where
  "chain es [] = True"
| "chain es [x] = True"
| "chain es (x # y # ys) = ((y, x) \<in> set es \<and> chain es (y # ys))"

definition doomed :: "(string \<times> string) list \<Rightarrow> string \<Rightarrow> bool" where
  "doomed es a = (\<exists>x. (a, x) \<in> (set es)\<^sup>* \<and> (x, x) \<in> (set es)\<^sup>+)"

text \<open>
  A list of nodes is a cycle of the graph when each node has an edge to the next and the
  last has an edge to the first.
\<close>

definition is_cycle :: "(string \<times> string) list \<Rightarrow> string list \<Rightarrow> bool" where
  "is_cycle es c = (c \<noteq> [] \<and> chain es (rev c) \<and> (last c, hd c) \<in> set es)"

section \<open>Reading an artifact back\<close>

text \<open>
  Modelled from the spec: the script has no \<^verbatim>\<open>fromArtifact\<close>; the specification asks
  for the inverse of \<^verbatim>\<open>toCanonicalArtifact\<close> with a \<open>ParseError\<close> for anything else.
  It is modelled in three passes: the text is cut into tokens, the tokens are parsed
  into a JSON value, and the value is decoded into a model.
\<close>

datatype token =
  TLBrace | TRBrace | TLBracket | TRBracket | TColon | TComma
| TString string
| TNumber int
| TBool bool

text \<open>
  Modelled from the spec: the tokenizer of \<^verbatim>\<open>fromArtifact\<close>. It reads one character at a time. Its mode says what it is in the middle
  of: nothing, a string (the characters so far, last first), an escape, the four
  hexadecimal digits of a \<^verbatim>\<open>\u\<close> escape, a number (after the sign, or after some
  digits), or the rest of \<^verbatim>\<open>true\<close> or \<^verbatim>\<open>false\<close>.
\<close>

datatype lex_mode =
  Start
| InString string
| InEscape string
| InUnicode string "nat list"
| InMinus
| InNumber bool nat
| InWord string token

datatype action = Skip | Emit token | Enter lex_mode | Reject

definition is_whitespace :: "char \<Rightarrow> bool" where
  "is_whitespace c = (c = CHR '' '' \<or> c = CHR 0x0A \<or> c = CHR 0x0D \<or> c = CHR 0x09)"

definition digit_value :: "char \<Rightarrow> nat" where
  "digit_value c = of_char c - 48"

definition hex_value :: "char \<Rightarrow> nat option" where
  "hex_value c =
     (if is_digit c then Some (of_char c - 48)
      else if c \<in> set ''abcdef'' then Some (of_char c - 87)
      else if c \<in> set ''ABCDEF'' then Some (of_char c - 55)
      else None)"

definition unescape :: "char \<Rightarrow> char option" where
  "unescape c =
     (if c = CHR ''b'' then Some (CHR 0x08)
      else if c = CHR ''t'' then Some (CHR 0x09)
      else if c = CHR ''n'' then Some (CHR 0x0A)
      else if c = CHR ''f'' then Some (CHR 0x0C)
      else if c = CHR ''r'' then Some (CHR 0x0D)
      else if c = CHR 0x22 then Some (CHR 0x22)
      else if c = CHR 0x5C then Some (CHR 0x5C)
      else if c = CHR ''/'' then Some (CHR ''/'')
      else None)"

definition start_action :: "char \<Rightarrow> action" where
  "start_action c =
     (if is_whitespace c then Skip
      else if c = CHR ''{'' then Emit TLBrace
      else if c = CHR ''}'' then Emit TRBrace
      else if c = CHR ''['' then Emit TLBracket
      else if c = CHR '']'' then Emit TRBracket
      else if c = CHR '':'' then Emit TColon
      else if c = CHR '','' then Emit TComma
      else if c = CHR 0x22 then Enter (InString [])
      else if c = CHR ''-'' then Enter InMinus
      else if is_digit c then Enter (InNumber False (digit_value c))
      else if c = CHR ''t'' then Enter (InWord ''rue'' (TBool True))
      else if c = CHR ''f'' then Enter (InWord ''alse'' (TBool False))
      else Reject)"

definition cons_token :: "token \<Rightarrow> token list option \<Rightarrow> token list option" where
  "cons_token t r = map_option ((#) t) r"

definition signed :: "bool \<Rightarrow> nat \<Rightarrow> int" where
  "signed negative n = (if negative then - int n else int n)"

fun tokenize :: "lex_mode \<Rightarrow> string \<Rightarrow> token list option" where
  "tokenize Start [] = Some []"
| "tokenize Start (c # cs) =
     (case start_action c of
        Skip \<Rightarrow> tokenize Start cs
      | Emit t \<Rightarrow> cons_token t (tokenize Start cs)
      | Enter m \<Rightarrow> tokenize m cs
      | Reject \<Rightarrow> None)"
| "tokenize (InString acc) [] = None"
| "tokenize (InString acc) (c # cs) =
     (if c = CHR 0x22 then cons_token (TString (rev acc)) (tokenize Start cs)
      else if c = CHR 0x5C then tokenize (InEscape acc) cs
      else if (of_char c :: nat) < 32 then None
      else tokenize (InString (c # acc)) cs)"
| "tokenize (InEscape acc) [] = None"
| "tokenize (InEscape acc) (c # cs) =
     (if c = CHR ''u'' then tokenize (InUnicode acc []) cs
      else (case unescape c of
              None \<Rightarrow> None
            | Some d \<Rightarrow> tokenize (InString (d # acc)) cs))"
| "tokenize (InUnicode acc hs) [] = None"
| "tokenize (InUnicode acc hs) (c # cs) =
     (case hex_value c of
        None \<Rightarrow> None
      | Some h \<Rightarrow>
          if length hs < 3 then tokenize (InUnicode acc (hs @ [h])) cs
          else (let code = foldl (\<lambda>n d. 16 * n + d) 0 (hs @ [h])
                in if code < 256 then tokenize (InString (char_of code # acc)) cs else None))"
| "tokenize InMinus [] = None"
| "tokenize InMinus (c # cs) =
     (if is_digit c then tokenize (InNumber True (digit_value c)) cs else None)"
| "tokenize (InNumber negative n) [] = Some [TNumber (signed negative n)]"
| "tokenize (InNumber negative n) (c # cs) =
     (if is_digit c then tokenize (InNumber negative (10 * n + digit_value c)) cs
      else (case start_action c of
              Skip \<Rightarrow> cons_token (TNumber (signed negative n)) (tokenize Start cs)
            | Emit t \<Rightarrow> cons_token (TNumber (signed negative n)) (cons_token t (tokenize Start cs))
            | Enter m \<Rightarrow> cons_token (TNumber (signed negative n)) (tokenize m cs)
            | Reject \<Rightarrow> None))"
| "tokenize (InWord rest t) [] = None"
| "tokenize (InWord rest t) (c # cs) =
     (case rest of
        [] \<Rightarrow> None
      | r # rs \<Rightarrow>
          if c \<noteq> r then None
          else if rs = [] then cons_token t (tokenize Start cs)
          else tokenize (InWord rs t) cs)"

text \<open>
  Modelled from the spec: the parser of \<^verbatim>\<open>fromArtifact\<close>. It reads one token at a time and keeps a stack of the arrays and objects that
  are open. A frame of the stack says how far its array or object has got and so which
  token may come next.
\<close>

datatype frame =
  AOpen
| AValue "json list"
| AComma "json list"
| OOpen
| OKey "(string \<times> json) list" string
| OColon "(string \<times> json) list" string
| OValue "(string \<times> json) list"
| OComma "(string \<times> json) list"

datatype parse_state = Done json | Open "frame list"

fun push_value :: "json \<Rightarrow> frame list \<Rightarrow> parse_state option" where
  "push_value v [] = Some (Done v)"
| "push_value v (AOpen # st) = Some (Open (AValue [v] # st))"
| "push_value v (AComma vs # st) = Some (Open (AValue (vs @ [v]) # st))"
| "push_value v (OColon kvs k # st) = Some (Open (OValue (kvs @ [(k, v)]) # st))"
| "push_value v (f # st) = None"

fun expects_value :: "frame list \<Rightarrow> bool" where
  "expects_value [] = True"
| "expects_value (AOpen # st) = True"
| "expects_value (AComma vs # st) = True"
| "expects_value (OColon kvs k # st) = True"
| "expects_value (f # st) = False"

fun parse_step :: "token \<Rightarrow> frame list \<Rightarrow> parse_state option" where
  "parse_step (TNumber n) st = push_value (JNumber n) st"
| "parse_step (TBool b) st = push_value (JBool b) st"
| "parse_step (TString s) (OOpen # st) = Some (Open (OKey [] s # st))"
| "parse_step (TString s) (OComma kvs # st) = Some (Open (OKey kvs s # st))"
| "parse_step (TString s) st = push_value (JString s) st"
| "parse_step TLBracket st = (if expects_value st then Some (Open (AOpen # st)) else None)"
| "parse_step TLBrace st = (if expects_value st then Some (Open (OOpen # st)) else None)"
| "parse_step TRBracket (AOpen # st) = push_value (JArray []) st"
| "parse_step TRBracket (AValue vs # st) = push_value (JArray vs) st"
| "parse_step TRBracket st = None"
| "parse_step TRBrace (OOpen # st) = push_value (JObject []) st"
| "parse_step TRBrace (OValue kvs # st) = push_value (JObject kvs) st"
| "parse_step TRBrace st = None"
| "parse_step TComma (AValue vs # st) = Some (Open (AComma vs # st))"
| "parse_step TComma (OValue kvs # st) = Some (Open (OComma kvs # st))"
| "parse_step TComma st = None"
| "parse_step TColon (OKey kvs k # st) = Some (Open (OColon kvs k # st))"
| "parse_step TColon st = None"

fun parse_tokens :: "token list \<Rightarrow> parse_state \<Rightarrow> json option" where
  "parse_tokens [] (Done v) = Some v"
| "parse_tokens [] (Open st) = None"
| "parse_tokens (t # ts) (Done v) = None"
| "parse_tokens (t # ts) (Open st) =
     (case parse_step t st of None \<Rightarrow> None | Some s \<Rightarrow> parse_tokens ts s)"

definition JSON_parse :: "string \<Rightarrow> json option" where
  "JSON_parse s =
     (case tokenize Start s of None \<Rightarrow> None | Some ts \<Rightarrow> parse_tokens ts (Open []))"

text \<open>
  Notions for the correctness of the tokenizer and the parser: the tokens of a value,
  appending to a tokenizer result, the condition under which a number may end, the
  digits read so far, and the frames in which an array or an object takes its next
  member.
\<close>

definition append_tokens :: "token list \<Rightarrow> token list option \<Rightarrow> token list option" where
  "append_tokens ts r = map_option ((@) ts) r"

definition number_end :: "string \<Rightarrow> bool" where
  "number_end rest = (case rest of [] \<Rightarrow> True | c # cs \<Rightarrow> \<not> is_digit c)"

definition read_digits :: "nat \<Rightarrow> string \<Rightarrow> nat" where
  "read_digits a ds = foldl (\<lambda>n c. 10 * n + digit_value c) a ds"

fun separated :: "token list list \<Rightarrow> token list" where
  "separated [] = []"
| "separated [x] = x"
| "separated (x # y # ys) = x @ TComma # separated (y # ys)"

fun tokens_of :: "json \<Rightarrow> token list" where
  "tokens_of (JNumber n) = [TNumber n]"
| "tokens_of (JString s) = [TString s]"
| "tokens_of (JBool b) = [TBool b]"
| "tokens_of (JArray vs) = TLBracket # separated (map tokens_of vs) @ [TRBracket]"
| "tokens_of (JObject kvs) =
     TLBrace # separated (map (\<lambda>(k, v). TString k # TColon # tokens_of v) kvs) @ [TRBrace]"

definition continue_with :: "token list \<Rightarrow> parse_state option \<Rightarrow> json option" where
  "continue_with ts r = (case r of None \<Rightarrow> None | Some s \<Rightarrow> parse_tokens ts s)"

definition array_frame :: "frame \<Rightarrow> json list \<Rightarrow> bool" where
  "array_frame fr acc = ((fr = AOpen \<and> acc = []) \<or> fr = AComma acc)"

definition object_frame :: "frame \<Rightarrow> (string \<times> json) list \<Rightarrow> bool" where
  "object_frame fr acc = ((fr = OOpen \<and> acc = []) \<or> fr = OComma acc)"

text \<open>
  Modelled from the spec: decoding a JSON value into a model. An object must have
  exactly the properties of the export schema, in its order, with values of the right
  kind; the enumerations accept only their own names.
\<close>

datatype parse_error = ParseError

definition fields :: "string list \<Rightarrow> json \<Rightarrow> json list option" where
  "fields keys v =
     (case v of
        JObject kvs \<Rightarrow> if map fst kvs = keys then Some (map snd kvs) else None
      | _ \<Rightarrow> None)"

fun array_of :: "(json \<Rightarrow> 'a option) \<Rightarrow> json \<Rightarrow> 'a list option" where
  "array_of f (JArray vs) = those (map f vs)"
| "array_of f v = None"

definition visibility_of_string :: "string \<Rightarrow> visibility option" where
  "visibility_of_string s =
     (if s = ''public'' then Some Public else if s = ''private'' then Some Private else None)"

definition lb_kind_of_string :: "string \<Rightarrow> lb_kind option" where
  "lb_kind_of_string s =
     (if s = ''application'' then Some Application
      else if s = ''network'' then Some Network
      else if s = ''classic'' then Some Classic
      else None)"

definition exposure_of_string :: "string \<Rightarrow> exposure option" where
  "exposure_of_string s =
     (if s = ''internet-facing'' then Some InternetFacing
      else if s = ''internal'' then Some Internal
      else None)"

definition tier_of_string :: "string \<Rightarrow> tier option" where
  "tier_of_string s =
     (if s = ''web'' then Some Web else if s = ''app'' then Some App else None)"

definition vpc_of_json :: "json \<Rightarrow> vpc option" where
  "vpc_of_json v =
     (case fields [''cidr'', ''name'', ''region''] v of
        Some [JString c, JString n, JString r] \<Rightarrow>
          Some \<lparr>vpc_cidr = c, vpc_name = n, vpc_region = r\<rparr>
      | _ \<Rightarrow> None)"

definition subnet_of_json :: "json \<Rightarrow> subnet option" where
  "subnet_of_json v =
     (case fields [''name'', ''cidr'', ''az'', ''type''] v of
        Some [JString n, JString c, JString a, JString t] \<Rightarrow>
          map_option (\<lambda>t'. \<lparr>subnet_name = n, subnet_cidr = c, subnet_az = a, subnet_type = t'\<rparr>)
            (visibility_of_string t)
      | _ \<Rightarrow> None)"

definition rule_of_json :: "json \<Rightarrow> rule option" where
  "rule_of_json v =
     (case fields [''port'', ''protocol'', ''source''] v of
        Some [JNumber p, JString pr, JString s] \<Rightarrow>
          Some \<lparr>rule_port = p, rule_protocol = pr, rule_source = s\<rparr>
      | _ \<Rightarrow> None)"

definition securityGroup_of_json :: "json \<Rightarrow> securityGroup option" where
  "securityGroup_of_json v =
     (case fields [''name'', ''inbound''] v of
        Some [JString n, rules] \<Rightarrow>
          map_option (\<lambda>rs. \<lparr>sg_name = n, sg_inbound = rs\<rparr>) (array_of rule_of_json rules)
      | _ \<Rightarrow> None)"

definition loadBalancer_of_json :: "json \<Rightarrow> loadBalancer option" where
  "loadBalancer_of_json v =
     (case fields [''name'', ''type'', ''scheme''] v of
        Some [JString n, JString t, JString s] \<Rightarrow>
          (case (lb_kind_of_string t, exposure_of_string s) of
             (Some t', Some s') \<Rightarrow> Some \<lparr>lb_name = n, lb_type = t', lb_scheme = s'\<rparr>
           | _ \<Rightarrow> None)
      | _ \<Rightarrow> None)"

definition ec2Instance_of_json :: "json \<Rightarrow> ec2Instance option" where
  "ec2Instance_of_json v =
     (case fields [''name'', ''type'', ''tier''] v of
        Some [JString n, JString t, JString tr] \<Rightarrow>
          map_option (\<lambda>tr'. \<lparr>instance_name = n, instance_type = t, instance_tier = tr'\<rparr>)
            (tier_of_string tr)
      | _ \<Rightarrow> None)"

definition rds_of_json :: "json \<Rightarrow> rds option" where
  "rds_of_json v =
     (case fields [''identifier'', ''engine'', ''version'', ''instanceClass'', ''multiAZ'',
                   ''storage''] v of
        Some [JString i, JString e, JString ver, JString c, JBool m, JNumber s] \<Rightarrow>
          Some \<lparr>rds_identifier = i, rds_engine = e, rds_version = ver, rds_instanceClass = c,
                rds_multiAZ = m, rds_storage = s\<rparr>
      | _ \<Rightarrow> None)"

definition dns_record_of_json :: "json \<Rightarrow> dns_record option" where
  "dns_record_of_json v =
     (case fields [''name'', ''type'', ''value''] v of
        Some [JString n, JString t, JString x] \<Rightarrow>
          Some \<lparr>record_name = n, record_type = t, record_value = x\<rparr>
      | _ \<Rightarrow> None)"

definition route53_of_json :: "json \<Rightarrow> route53 option" where
  "route53_of_json v =
     (case fields [''domain'', ''records''] v of
        Some [JString d, records] \<Rightarrow>
          map_option (\<lambda>rs. \<lparr>zone_domain = d, zone_records = rs\<rparr>)
            (array_of dns_record_of_json records)
      | _ \<Rightarrow> None)"

definition model_of_json :: "json \<Rightarrow> ConfigModel option" where
  "model_of_json v =
     (case fields [''vpc'', ''subnets'', ''securityGroups'', ''loadBalancers'',
                   ''ec2Instances'', ''rds'', ''route53''] v of
        Some [v1, v2, v3, v4, v5, v6, v7] \<Rightarrow>
          (case (vpc_of_json v1, array_of subnet_of_json v2,
                 array_of securityGroup_of_json v3, array_of loadBalancer_of_json v4,
                 array_of ec2Instance_of_json v5, rds_of_json v6, route53_of_json v7) of
             (Some a, Some b, Some c, Some d, Some e, Some f, Some g) \<Rightarrow>
               Some \<lparr>cfg_vpc = a, cfg_subnets = b, cfg_securityGroups = c,
                     cfg_loadBalancers = d, cfg_ec2Instances = e, cfg_rds = f,
                     cfg_route53 = g\<rparr>
           | _ \<Rightarrow> None)
      | _ \<Rightarrow> None)"

text \<open>Modelled from the spec: \<^verbatim>\<open>fromArtifact\<close>, a model or the parse error.\<close>

definition fromArtifact :: "string \<Rightarrow> parse_error + ConfigModel" where
  "fromArtifact s =
     (case JSON_parse s of
        None \<Rightarrow> Inl ParseError
      | Some v \<Rightarrow> (case model_of_json v of None \<Rightarrow> Inl ParseError | Some m \<Rightarrow> Inr m))"

section \<open>Facts about the document operations\<close>

lemma length_remove_active [simp]: "length (remove_active i d) = length d"
  by (simp add: remove_active_def)

lemma length_add_active [simp]: "length (add_active i d) = length d"
  by (simp add: add_active_def)

lemma length_fold_remove_active [simp]: "length (fold remove_active is d) = length d"
  by (induction "is" arbitrary: d) simp_all

lemma classList_remove_twice [simp]:
  "classList_remove c (classList_remove c e) = classList_remove c e"
  by (simp add: classList_remove_def)

lemma nth_fold_remove_active:
  "j < length d \<Longrightarrow>
   fold remove_active is d ! j =
     (if j \<in> set is then classList_remove ''active'' (d ! j) else d ! j)"
proof (induction "is" arbitrary: d)
  case Nil
  then show ?case by simp
next
  case (Cons i "is")
  have "fold remove_active (i # is) d = fold remove_active is (remove_active i d)"
    by simp
  moreover have "j < length (remove_active i d)"
    using Cons.prems by simp
  ultimately show ?case
    using Cons.IH [of "remove_active i d"] Cons.prems
    by (cases "i = j") (auto simp: remove_active_def)
qed

lemma is_active_remove [simp]: "\<not> is_active (classList_remove ''active'' e)"
  by (simp add: is_active_def classList_remove_def)

lemma is_active_add [simp]: "is_active (classList_add ''active'' e)"
  by (simp add: is_active_def classList_add_def)

lemma elem_id_remove [simp]: "elem_id (classList_remove c e) = elem_id e"
  by (simp add: classList_remove_def)

lemma elem_id_add [simp]: "elem_id (classList_add c e) = elem_id e"
  by (simp add: classList_add_def)

lemma data_section_remove [simp]: "data_section (classList_remove c e) = data_section e"
  by (simp add: classList_remove_def)

lemma data_section_add [simp]: "data_section (classList_add c e) = data_section e"
  by (simp add: classList_add_def)

lemma getElementById_cong_ids:
  "map elem_id d' = map elem_id d \<Longrightarrow> getElementById d' s = getElementById d s"
proof (induction d arbitrary: d')
  case Nil
  then show ?case by simp
next
  case (Cons e es)
  then obtain e' es' where d': "d' = e' # es'" "elem_id e' = elem_id e"
    "map elem_id es' = map elem_id es"
    by (cases d') auto
  with Cons.IH [of es'] show ?case by simp
qed

lemma getElementById_less: "getElementById d s = Some j \<Longrightarrow> j < length d"
  by (induction d arbitrary: j) (auto split: if_splits)

lemma map_elem_id_update:
  assumes that: "elem_id e = elem_id (d ! i)"
  shows "map elem_id (d[i := e]) = map elem_id d"
proof (cases "i < length d")
  case True
  then show ?thesis
    by (simp add: map_update list_update_same_conv that)
next
  case False
  then have "length d \<le> i" by simp
  then have "d[i := e] = d" by (rule list_update_beyond)
  then show ?thesis by simp
qed

lemma map_elem_id_remove_active [simp]:
  "map elem_id (remove_active i d) = map elem_id d"
  by (simp add: remove_active_def map_elem_id_update)

lemma map_elem_id_add_active [simp]:
  "map elem_id (add_active i d) = map elem_id d"
  by (simp add: add_active_def map_elem_id_update)

lemma map_elem_id_fold_remove_active [simp]:
  "map elem_id (fold remove_active is d) = map elem_id d"
  by (induction "is" arbitrary: d) simp_all


section \<open>Facts about a click\<close>

lemma data_section_fold_remove_active:
  "j < length d \<Longrightarrow> data_section (fold remove_active is d ! j) = data_section (d ! j)"
  by (simp add: nth_fold_remove_active)

lemma click_sectionId:
  assumes "this < length (doc p)"
  shows "data_section
           (add_active this (fold remove_active (sections p)
              (fold remove_active (navLinks p) (doc p))) ! this) =
         data_section (doc p ! this)"
  using assms by (simp add: add_active_def data_section_fold_remove_active)

lemma click_target:
  assumes "this < length (doc p)"
  shows "getElementById
           (add_active this (fold remove_active (sections p)
              (fold remove_active (navLinks p) (doc p))))
           (dom_string (data_section
              (add_active this (fold remove_active (sections p)
                 (fold remove_active (navLinks p) (doc p))) ! this))) =
         target_of p this"
proof -
  let ?d3 = "add_active this (fold remove_active (sections p)
              (fold remove_active (navLinks p) (doc p)))"
  have "map elem_id ?d3 = map elem_id (doc p)" by simp
  then have "getElementById ?d3 s = getElementById (doc p) s" for s
    by (rule getElementById_cong_ids)
  then show ?thesis
    using click_sectionId [OF assms] by (simp add: target_of_def)
qed

lemma page_ok_link:
  "page_ok p \<Longrightarrow> this \<in> set (navLinks p) \<Longrightarrow>
   this < length (doc p) \<and> this \<notin> set (sections p)"
  by (simp add: page_ok_def list_all_iff)

lemma page_ok_section:
  "page_ok p \<Longrightarrow> j \<in> set (sections p) \<Longrightarrow> j < length (doc p)"
  by (simp add: page_ok_def list_all_iff)

lemma click_doc:
  assumes "page_ok p" "this \<in> set (navLinks p)"
  shows "doc (click this p) =
     (let d3 = add_active this (fold remove_active (sections p)
                 (fold remove_active (navLinks p) (doc p)))
      in case target_of p this of None \<Rightarrow> d3 | Some t \<Rightarrow> add_active t d3)"
proof -
  have "this < length (doc p)"
    using page_ok_link [OF assms] by simp
  from click_target [OF this] show ?thesis
    using assms(2) by (simp add: click_def Let_def split: option.splits)
qed

lemma click_lists [simp]:
  "navLinks (click this p) = navLinks p" "sections (click this p) = sections p"
  by (simp_all add: click_def Let_def split: option.splits)

lemma length_doc_click [simp]: "length (doc (click this p)) = length (doc p)"
  by (simp add: click_def Let_def split: option.splits)

lemma is_active_click:
  assumes "page_ok p" "this \<in> set (navLinks p)" "j \<in> set (sections p)"
  shows "is_active (doc (click this p) ! j) \<longleftrightarrow> target_of p this = Some j"
proof -
  let ?d2 = "fold remove_active (sections p) (fold remove_active (navLinks p) (doc p))"
  let ?d3 = "add_active this ?d2"
  have j: "j < length (doc p)"
    using page_ok_section [OF assms(1,3)] .
  have neq: "this \<noteq> j"
    using page_ok_link [OF assms(1,2)] assms(3) by auto
  have "?d2 ! j = classList_remove ''active'' (fold remove_active (navLinks p) (doc p) ! j)"
    using j assms(3) by (simp add: nth_fold_remove_active)
  then have "\<not> is_active (?d2 ! j)" by simp
  then have d3: "\<not> is_active (?d3 ! j)"
    using neq by (simp add: add_active_def)
  show ?thesis
  proof (cases "target_of p this")
    case None
    then show ?thesis
      using d3 click_doc [OF assms(1,2)] by (simp add: Let_def)
  next
    case (Some t)
    show ?thesis
    proof (cases "t = j")
      case True
      then show ?thesis
        using Some j click_doc [OF assms(1,2)] by (simp add: Let_def add_active_def)
    next
      case False
      then show ?thesis
        using Some d3 click_doc [OF assms(1,2)] by (simp add: Let_def add_active_def)
    qed
  qed
qed

lemma is_active_click_link:
  assumes "page_ok p" "this \<in> set (navLinks p)"
  shows "is_active (doc (click this p) ! this)"
proof -
  let ?d3 = "add_active this (fold remove_active (sections p)
              (fold remove_active (navLinks p) (doc p)))"
  have len: "this < length (doc p)"
    using page_ok_link [OF assms] by simp
  then have d3: "is_active (?d3 ! this)"
    by (simp add: add_active_def)
  show ?thesis
  proof (cases "target_of p this")
    case None
    then show ?thesis
      using d3 click_doc [OF assms] by (simp add: Let_def)
  next
    case (Some t)
    then show ?thesis
      using d3 len click_doc [OF assms]
      by (cases "t = this") (simp_all add: Let_def add_active_def)
  qed
qed

lemma is_active_click_other_link:
  assumes "page_ok p" "this \<in> set (navLinks p)" "l \<in> set (navLinks p)" "l \<noteq> this"
  shows "is_active (doc (click this p) ! l) \<longleftrightarrow> target_of p this = Some l"
proof -
  let ?d2 = "fold remove_active (sections p) (fold remove_active (navLinks p) (doc p))"
  let ?d3 = "add_active this ?d2"
  have l: "l < length (doc p)" "l \<notin> set (sections p)"
    using page_ok_link [OF assms(1,3)] by simp_all
  have "?d2 ! l = classList_remove ''active'' (doc p ! l)"
    using l assms(3) by (simp add: nth_fold_remove_active)
  then have "\<not> is_active (?d2 ! l)" by simp
  then have d3: "\<not> is_active (?d3 ! l)"
    using assms(4) by (simp add: add_active_def)
  show ?thesis
  proof (cases "target_of p this")
    case None
    then show ?thesis
      using d3 click_doc [OF assms(1,2)] by (simp add: Let_def)
  next
    case (Some t)
    then show ?thesis
      using d3 l(1) click_doc [OF assms(1,2)]
      by (cases "t = l") (simp_all add: Let_def add_active_def)
  qed
qed

lemma active_links_click:
  assumes "page_ok p" "this \<in> set (navLinks p)"
  shows "active_links (click this p) =
         filter (\<lambda>l. l = this \<or> target_of p this = Some l) (navLinks p)"
  unfolding active_links_def click_lists
proof (rule filter_cong [OF refl])
  fix l assume "l \<in> set (navLinks p)"
  then show "is_active (doc (click this p) ! l) = (l = this \<or> target_of p this = Some l)"
    using is_active_click_link [OF assms] is_active_click_other_link [OF assms]
    by (cases "l = this") simp_all
qed

lemma active_sections_click:
  assumes "page_ok p" "this \<in> set (navLinks p)"
  shows "active_sections (click this p) =
         filter (\<lambda>j. target_of p this = Some j) (sections p)"
  unfolding active_sections_def click_lists
  by (rule filter_cong [OF refl]) (rule is_active_click [OF assms])

lemma page_ok_click: "page_ok p \<Longrightarrow> page_ok (click this p)"
  by (simp add: page_ok_def)

lemma filter_single_eq:
  assumes "filter P xs = [j]"
  shows "filter (\<lambda>x. x = j) xs = [j]"
proof -
  have "j \<in> set (filter P xs)" using assms by simp
  then have Pj: "P j" by simp
  have "filter (\<lambda>x. x = j) (filter P xs) = filter (\<lambda>x. x = j) xs"
    unfolding filter_filter by (rule filter_cong [OF refl]) (use Pj in auto)
  then show ?thesis using assms by simp
qed

section \<open>Navigation: the properties\<close>

text \<open>
  C9. Selecting the section that is already the active one changes nothing that can be
  observed: when the link's \<^verbatim>\<open>data-section\<close> names a content section \<open>j\<close> and \<open>j\<close> is the
  one active section, the active sections after the click are the same as before. When
  the clicked link is the one that is highlighted, the highlighted links stay the same
  too.
\<close>

theorem select_idempotent:
  assumes "page_ok p" and "this \<in> set (navLinks p)"
    and "target_of p this = Some j" and "j \<in> set (sections p)"
    and "active_sections p = [j]"
  shows "active_sections (click this p) = active_sections p \<and>
         (active_links p = [this] \<longrightarrow> active_links (click this p) = active_links p)"
proof -
  have "filter (\<lambda>x. x = j) (sections p) = [j]"
    using assms(5) unfolding active_sections_def by (rule filter_single_eq)
  moreover have "(\<lambda>x. Some j = Some x) = (\<lambda>x. x = j)" by auto
  ultimately have sections_same: "active_sections (click this p) = active_sections p"
    using active_sections_click [OF assms(1,2)] assms(3,5) by simp
  have links_same: "active_links (click this p) = active_links p" if "active_links p = [this]"
  proof -
    have "filter (\<lambda>l. l = this) (navLinks p) = [this]"
      using that unfolding active_links_def by (rule filter_single_eq)
    moreover have "filter (\<lambda>l. l = this \<or> target_of p this = Some l) (navLinks p) =
        filter (\<lambda>l. l = this) (navLinks p)"
    proof (rule filter_cong [OF refl])
      fix l assume "l \<in> set (navLinks p)"
      then have "l \<noteq> j"
        using page_ok_link [OF assms(1)] assms(4) by auto
      then show "(l = this \<or> target_of p this = Some l) = (l = this)"
        using assms(3) by auto
    qed
    ultimately show ?thesis
      using active_links_click [OF assms(1,2)] that by simp
  qed
  from sections_same links_same show ?thesis by simp
qed

lemmas page_eval =
  on_DOMContentLoaded_def querySelectorAll_class_def add_active_def remove_active_def
  classList_add_def classList_remove_def click_def active_sections_def active_links_def
  target_of_def known_section_def page_ok_def dom_string_def is_active_def
  nav_link_def content_section_def Let_def upt_rec

theorem select_idempotent_witness:
  "page_ok (on_DOMContentLoaded console_doc) \<and>
   0 \<in> set (navLinks (on_DOMContentLoaded console_doc)) \<and>
   target_of (on_DOMContentLoaded console_doc) 0 = Some 2 \<and>
   2 \<in> set (sections (on_DOMContentLoaded console_doc)) \<and>
   active_sections (on_DOMContentLoaded console_doc) = [2] \<and>
   active_links (on_DOMContentLoaded console_doc) = [0] \<and>
   active_sections (click 0 (on_DOMContentLoaded console_doc)) =
     active_sections (on_DOMContentLoaded console_doc) \<and>
   active_links (click 0 (on_DOMContentLoaded console_doc)) =
     active_links (on_DOMContentLoaded console_doc)"
proof -
  let ?p = "on_DOMContentLoaded console_doc"
  have h1: "page_ok ?p" by (simp add: page_eval console_doc_def)
  have h2: "0 \<in> set (navLinks ?p)" by (simp add: page_eval console_doc_def)
  have h3: "target_of ?p 0 = Some 2" by (simp add: page_eval console_doc_def)
  have h4: "2 \<in> set (sections ?p)" by (simp add: page_eval console_doc_def)
  have h5: "active_sections ?p = [2]" by (simp add: page_eval console_doc_def)
  have h6: "active_links ?p = [0]" by (simp add: page_eval console_doc_def)
  note same = select_idempotent [OF h1 h2 h3 h4 h5]
  from same [THEN conjunct1] same [THEN conjunct2, THEN mp, OF h6] h1 h2 h3 h4 h5 h6
  show ?thesis by blast
qed

lemma click_handler_normal: "click_handler this p = Inr (click this p)"
  by (simp add: click_handler_def click_def classList_add_active_on_def Let_def
      split: option.splits)

text \<open>
  C3. The statement of the specification does not hold: in \<open>dangling_doc\<close> the second
  link names the id \<^verbatim>\<open>billing\<close>, which no element has, and the click on it does not
  fail. The handler completes and returns a page.
\<close>

theorem select_unknown_counterexample:
  "\<not> known_section (on_DOMContentLoaded dangling_doc) 1 \<and>
   click_handler 1 (on_DOMContentLoaded dangling_doc) =
     Inr (click 1 (on_DOMContentLoaded dangling_doc))"
  by (simp add: click_handler_normal) (simp add: page_eval dangling_doc_def)

text \<open>
  C3, as amended. A select of an identifier that is not a known section does not fail:
  the handler raises nothing and completes with a page. The script has no
  \<open>UnknownSection\<close> result; the guard of line 21 passes over the missing section.
\<close>

theorem select_unknown_completes:
  assumes "this \<in> set (navLinks p)" and "\<not> known_section p this"
  shows "\<exists>p'. click_handler this p = Inr p'"
  by (simp add: click_handler_normal)

theorem select_unknown_completes_witness:
  "1 \<in> set (navLinks (on_DOMContentLoaded dangling_doc)) \<and>
   \<not> known_section (on_DOMContentLoaded dangling_doc) 1 \<and>
   (\<exists>p'. click_handler 1 (on_DOMContentLoaded dangling_doc) = Inr p')"
proof -
  let ?p = "on_DOMContentLoaded dangling_doc"
  have h1: "1 \<in> set (navLinks ?p)" by (simp add: page_eval dangling_doc_def)
  have h2: "\<not> known_section ?p 1" by (simp add: page_eval dangling_doc_def)
  from select_unknown_completes [OF h1 h2] h1 h2 show ?thesis by blast
qed

text \<open>
  C2. In \<open>unlabelled_doc\<close> the dashboard section is the active one after loading. The second
  link has no \<^verbatim>\<open>data-section\<close>; the lookup of its section finds nothing, the select
  fails, and afterwards no section is active, where the specification wants the dashboard
  section to stay the active one.
\<close>

theorem failed_select_leaves_no_section:
  "active_sections (on_DOMContentLoaded unlabelled_doc) = [2] \<and>
   target_of (on_DOMContentLoaded unlabelled_doc) 1 = None \<and>
   active_sections (click 1 (on_DOMContentLoaded unlabelled_doc)) = [] \<and>
   active_links (click 1 (on_DOMContentLoaded unlabelled_doc)) = [1]"
  by (simp add: page_eval unlabelled_doc_def)

section \<open>Navigation while every section is known\<close>

text \<open>
  On the path where the selected section exists, the handler keeps exactly one section
  active: after a click on a link whose \<^verbatim>\<open>data-section\<close> names a content section, that
  section is the only active one, and the same holds after any sequence of such clicks.
\<close>

lemma map_data_section_update:
  assumes "data_section e = data_section (d ! i)"
  shows "map data_section (d[i := e]) = map data_section d"
proof (cases "i < length d")
  case True
  then show ?thesis
    by (simp add: map_update list_update_same_conv assms)
next
  case False
  then have "length d \<le> i" by simp
  then have "d[i := e] = d" by (rule list_update_beyond)
  then show ?thesis by simp
qed

lemma map_data_section_remove_active [simp]:
  "map data_section (remove_active i d) = map data_section d"
  by (simp add: remove_active_def map_data_section_update)

lemma map_data_section_add_active [simp]:
  "map data_section (add_active i d) = map data_section d"
  by (simp add: add_active_def map_data_section_update)

lemma map_data_section_fold_remove_active [simp]:
  "map data_section (fold remove_active is d) = map data_section d"
  by (induction "is" arbitrary: d) simp_all

lemma click_keeps_attributes:
  assumes "page_ok p" "i \<in> set (navLinks p)"
  shows "map elem_id (doc (click i p)) = map elem_id (doc p)"
    and "map data_section (doc (click i p)) = map data_section (doc p)"
  using click_doc [OF assms] by (simp_all add: Let_def split: option.splits)

lemma target_of_click:
  assumes "page_ok p" "i \<in> set (navLinks p)" "this \<in> set (navLinks p)"
  shows "target_of (click i p) this = target_of p this"
proof -
  have len: "this < length (doc p)"
    using page_ok_link [OF assms(1,3)] by simp
  have "data_section (doc (click i p) ! this) = map data_section (doc (click i p)) ! this"
    using len by simp
  also have "\<dots> = data_section (doc p ! this)"
    using len by (simp add: click_keeps_attributes(2) [OF assms(1,2)])
  finally have "data_section (doc (click i p) ! this) = data_section (doc p ! this)" .
  moreover have "getElementById (doc (click i p)) s = getElementById (doc p) s" for s
    by (rule getElementById_cong_ids) (rule click_keeps_attributes(1) [OF assms(1,2)])
  ultimately show ?thesis by (simp add: target_of_def)
qed

lemma filter_distinct_member:
  "j \<in> set xs \<Longrightarrow> distinct xs \<Longrightarrow> filter (\<lambda>x. x = j) xs = [j]"
  by (induction xs) (auto simp: filter_empty_conv)

lemma known_section_click:
  assumes "page_ok p" "i \<in> set (navLinks p)" "this \<in> set (navLinks p)"
  shows "known_section (click i p) this = known_section p this"
  using target_of_click [OF assms]
  by (cases "target_of p this") (simp_all add: known_section_def)

lemma select_known_activates_exactly:
  assumes "page_ok p" "this \<in> set (navLinks p)" "target_of p this = Some j"
    "j \<in> set (sections p)" "distinct (sections p)"
  shows "active_sections (click this p) = [j]"
proof -
  have "filter (\<lambda>x. x = j) (sections p) = [j]"
    using assms(4,5) by (rule filter_distinct_member)
  moreover have "(\<lambda>x. Some j = Some x) = (\<lambda>x. x = j)" by auto
  ultimately show ?thesis
    using active_sections_click [OF assms(1,2)] assms(3) by simp
qed

lemma clicks_lists [simp]:
  "navLinks (clicks cs p) = navLinks p" "sections (clicks cs p) = sections p"
  by (induction cs arbitrary: p) simp_all

lemma navigation_exclusive_known:
  assumes "page_ok p" "distinct (sections p)" "cs \<noteq> []"
    and "\<forall>c\<in>set cs. c \<in> set (navLinks p) \<and> known_section p c"
  shows "\<exists>j. target_of p (last cs) = Some j \<and> active_sections (clicks cs p) = [j]"
  using assms
proof (induction cs arbitrary: p)
  case Nil
  then show ?case by simp
next
  case (Cons c cs)
  have c: "c \<in> set (navLinks p)" "known_section p c"
    using Cons.prems(4) by simp_all
  show ?case
  proof (cases "cs = []")
    case True
    from c(2) obtain j where j: "target_of p c = Some j" "j \<in> set (sections p)"
      by (auto simp: known_section_def split: option.splits)
    with True show ?thesis
      using select_known_activates_exactly [OF Cons.prems(1) c(1) j Cons.prems(2)] by simp
  next
    case False
    have known: "\<forall>d\<in>set cs. d \<in> set (navLinks (click c p)) \<and> known_section (click c p) d"
      using Cons.prems(4) known_section_click [OF Cons.prems(1) c(1)]
      by simp
    have "\<exists>j. target_of (click c p) (last cs) = Some j \<and>
        active_sections (clicks cs (click c p)) = [j]"
      using page_ok_click [OF Cons.prems(1)] Cons.prems(2) False known
      by (intro Cons.IH) simp_all
    moreover have "last cs \<in> set (navLinks p)"
      using False Cons.prems(4) by simp
    ultimately show ?thesis
      using False target_of_click [OF Cons.prems(1) c(1)] by simp
  qed
qed

lemma length_doc_on_DOMContentLoaded [simp]:
  "length (doc (on_DOMContentLoaded d)) = length d"
  by (simp add: on_DOMContentLoaded_def split: option.splits)

lemma page_ok_on_DOMContentLoaded:
  assumes "list_all (\<lambda>e. \<not> (''nav-link'' \<in> set (classList e) \<and>
                               ''content-section'' \<in> set (classList e))) d"
  shows "page_ok (on_DOMContentLoaded d) \<and> distinct (sections (on_DOMContentLoaded d))"
proof -
  have lists: "navLinks (on_DOMContentLoaded d) = querySelectorAll_class d ''nav-link''"
    "sections (on_DOMContentLoaded d) = querySelectorAll_class d ''content-section''"
    by (simp_all add: on_DOMContentLoaded_def)
  have apart: "\<not> (''nav-link'' \<in> set (classList (d ! i)) \<and>
                  ''content-section'' \<in> set (classList (d ! i)))" if "i < length d" for i
    using assms that by (simp add: list_all_length)
  have "list_all (\<lambda>i. i \<notin> set (querySelectorAll_class d ''content-section''))
          (querySelectorAll_class d ''nav-link'')"
    using apart by (auto simp: list_all_iff querySelectorAll_class_def)
  then show ?thesis
    by (simp add: page_ok_def lists) (simp add: querySelectorAll_class_def list_all_iff)
qed

section \<open>Deployment: the properties\<close>

lemma listed_steps_progress_message:
  "listed_steps progress_message =
     [''Creating VPC...'', ''Creating subnets...'', ''Creating Internet Gateway...'',
      ''Creating NAT Gateways...'', ''Creating security groups...'',
      ''Launching EC2 instances...'', ''Creating load balancers...'',
      ''Creating RDS database...'', ''Configuring Route 53...'']"
  by (simp add: listed_steps_def split_lines_def progress_message_def nl_def check_mark_def)

lemma progress_message_announces_start:
  "take 19 progress_message = ''Deployment Started!''"
  by (simp add: progress_message_def)

lemma simulated_calls_append [simp]:
  "simulated_calls (xs @ ys) = simulated_calls xs @ simulated_calls ys"
  by (simp add: simulated_calls_def)

lemma simulated_calls_dialogs [simp]:
  "simulated_calls [] = []"
  "simulated_calls (Confirm msg answer # es) = simulated_calls es"
  "simulated_calls (Alert msg # es) = simulated_calls es"
  by (simp_all add: simulated_calls_def)

text \<open>
  C1. The statement of the specification does not hold: when the confirmation is granted,
  the script executes no step. The whole run is the confirmation and one message, which
  says that the deployment has started; no simulated call is made and no timer is set.
\<close>

theorem deploy_executes_no_step_counterexample:
  "deployArchitecture (\<lambda>msg. True) [] =
     [Confirm deploy_summary True, Alert progress_message] \<and>
   simulated_calls (deployArchitecture (\<lambda>msg. True) []) = [] \<and>
   take 19 progress_message = ''Deployment Started!''"
  by (simp add: deployArchitecture_def showDeploymentProgress_def
      progress_message_announces_start)

text \<open>
  C1, as amended. When the confirmation is refused, the call does nothing more: the
  refused confirmation is its only event. When it is granted, the confirmation is
  followed by one message, which announces the start of the deployment and lists the
  nine steps in their declared order. In both cases no step is executed: the call makes
  no simulated call and sets no timer.
\<close>

theorem deploy_confirmation_gate:
  "(\<not> confirm deploy_summary \<longrightarrow>
      deployArchitecture confirm log = log @ [Confirm deploy_summary False]) \<and>
   (confirm deploy_summary \<longrightarrow>
      deployArchitecture confirm log =
        log @ [Confirm deploy_summary True, Alert progress_message]) \<and>
   take 19 progress_message = ''Deployment Started!'' \<and>
   listed_steps progress_message =
     [''Creating VPC...'', ''Creating subnets...'', ''Creating Internet Gateway...'',
      ''Creating NAT Gateways...'', ''Creating security groups...'',
      ''Launching EC2 instances...'', ''Creating load balancers...'',
      ''Creating RDS database...'', ''Configuring Route 53...''] \<and>
   simulated_calls (deployArchitecture confirm log) = simulated_calls log"
  by (simp add: deployArchitecture_def showDeploymentProgress_def Let_def
      listed_steps_progress_message progress_message_announces_start)

theorem deploy_confirmation_gate_witness:
  "deployArchitecture (\<lambda>msg. False) [] = [Confirm deploy_summary False] \<and>
   deployArchitecture (\<lambda>msg. True) [] = [Confirm deploy_summary True, Alert progress_message] \<and>
   length (listed_steps progress_message) = 9 \<and>
   simulated_calls (deployArchitecture (\<lambda>msg. True) []) = []"
proof -
  have no: "\<not> (\<lambda>msg. False) deploy_summary" and yes: "(\<lambda>msg. True) deploy_summary"
    by simp_all
  note denied = deploy_confirmation_gate [of "\<lambda>msg. False" "[]", THEN conjunct1, THEN mp, OF no]
  note granted = deploy_confirmation_gate
    [of "\<lambda>msg. True" "[]", THEN conjunct2, THEN conjunct1, THEN mp, OF yes]
  note rest = deploy_confirmation_gate
    [of "\<lambda>msg. True" "[]", THEN conjunct2, THEN conjunct2, THEN conjunct2]
  have nine: "length (listed_steps progress_message) = 9"
    unfolding rest [THEN conjunct1] by simp
  have quiet: "simulated_calls (deployArchitecture (\<lambda>msg. True) []) = []"
    unfolding rest [THEN conjunct2] by simp
  from denied have d: "deployArchitecture (\<lambda>msg. False) [] = [Confirm deploy_summary False]"
    by simp
  from granted have g: "deployArchitecture (\<lambda>msg. True) [] =
      [Confirm deploy_summary True, Alert progress_message]"
    by simp
  from d g nine quiet show ?thesis by blast
qed

text \<open>
  The script keeps nothing between two calls: what a call does depends only on the answer
  to its own confirmation, and the events of earlier calls stay as they are.
\<close>

lemma deploy_ignores_history:
  "deployArchitecture confirm log = log @ deployArchitecture confirm []"
  by (simp add: deployArchitecture_def showDeploymentProgress_def Let_def)

section \<open>Export: the properties\<close>

lemma config_json_defaultModel: "config_json defaultModel = architectureConfig"
  by (simp add: config_json_def defaultModel_def architectureConfig_def vpc_json_def
      subnet_json_def rule_json_def securityGroup_json_def loadBalancer_json_def
      ec2Instance_json_def rds_json_def dns_record_json_def route53_json_def
      visibility_string_def lb_kind_string_def exposure_string_def tier_string_def)

lemma fold_max_upper: "a \<le> fold max ks a \<and> (\<forall>k\<in>set ks. k \<le> fold max ks (a::nat))"
proof (induction ks arbitrary: a)
  case Nil
  then show ?case by simp
next
  case (Cons k ks)
  have "max k a \<le> fold max ks (max k a)" and "\<forall>j\<in>set ks. j \<le> fold max ks (max k a)"
    using Cons.IH [of "max k a"] by simp_all
  then show ?case by auto
qed

lemma fresh_url_new: "fresh_url store \<notin> fst ` set store"
proof
  assume "fresh_url store \<in> fst ` set store"
  then have "fresh_url store \<in> set (map fst store)" by simp
  then have "fresh_url store \<le> fold max (map fst store) 0"
    using fold_max_upper [of 0 "map fst store"] by blast
  then show False by (simp add: fresh_url_def)
qed

lemma filter_fresh: "u \<notin> fst ` set store \<Longrightarrow> filter (\<lambda>(u', b). u' \<noteq> u) store = store"
  by (induction store) auto

lemma exportArchitecture_effect:
  "exportArchitecture w =
     w\<lparr>events := events w @
        [Download ''aws-architecture-config.json'' ''application/json''
           (JSON_stringify architectureConfig),
         Alert export_message]\<rparr>"
  using filter_fresh [OF fresh_url_new, of "url_store w"]
  by (simp add: exportArchitecture_def createObjectURL_def appendChild_def anchor_click_def
      removeChild_def revokeObjectURL_def alert_def Let_def)


lemma toCanonicalArtifact_defaultModel:
  "toCanonicalArtifact defaultModel = JSON_stringify architectureConfig"
  by (simp add: toCanonicalArtifact_def config_json_defaultModel)

text \<open>
  C5. Equal models have the same artifact, byte for byte. Whatever the state of the
  browser, and so whatever events of the workflow came before, \<^verbatim>\<open>exportArchitecture\<close>
  saves the artifact of the default model under the name
  \<^verbatim>\<open>aws-architecture-config.json\<close>, shows its message, and changes nothing else: the
  anchor is removed again and the object URL revoked.
\<close>

theorem export_deterministic:
  "(m1 = m2 \<longrightarrow> toCanonicalArtifact m1 = toCanonicalArtifact m2) \<and>
   exportArchitecture w =
     w\<lparr>events := events w @
        [Download ''aws-architecture-config.json'' ''application/json''
           (toCanonicalArtifact defaultModel),
         Alert export_message]\<rparr>"
  by (simp add: exportArchitecture_effect toCanonicalArtifact_defaultModel)

theorem export_deterministic_witness:
  "defaultModel = defaultModel\<lparr>cfg_vpc := cfg_vpc defaultModel\<rparr> \<and>
   toCanonicalArtifact defaultModel =
     toCanonicalArtifact (defaultModel\<lparr>cfg_vpc := cfg_vpc defaultModel\<rparr>) \<and>
   events (exportArchitecture \<lparr>body_children = [], url_store = [], events = []\<rparr>) =
     [Download ''aws-architecture-config.json'' ''application/json''
        (toCanonicalArtifact defaultModel),
      Alert export_message]"
proof -
  have same: "defaultModel = defaultModel\<lparr>cfg_vpc := cfg_vpc defaultModel\<rparr>"
    by simp
  note art = export_deterministic
    [of defaultModel "defaultModel\<lparr>cfg_vpc := cfg_vpc defaultModel\<rparr>"
        "\<lparr>body_children = [], url_store = [], events = []\<rparr>",
     THEN conjunct1, THEN mp, OF same]
  note ev = export_deterministic
    [of defaultModel defaultModel "\<lparr>body_children = [], url_store = [], events = []\<rparr>",
     THEN conjunct2]
  have "events (exportArchitecture \<lparr>body_children = [], url_store = [], events = []\<rparr>) =
     [Download ''aws-architecture-config.json'' ''application/json''
        (toCanonicalArtifact defaultModel),
      Alert export_message]"
    unfolding ev by simp
  with same art show ?thesis by blast
qed

section \<open>The security groups of the exported artifact\<close>



lemma acyclic_tier_chain:
  "acyclic {(''app-tier-sg'', ''web-tier-sg''), (''db-tier-sg'', ''app-tier-sg'')}"
proof -
  define rank :: "string \<Rightarrow> nat" where
    "rank = (\<lambda>s. if s = ''web-tier-sg'' then 2 else if s = ''app-tier-sg'' then 1 else 0)"
  have "{(''app-tier-sg'', ''web-tier-sg''), (''db-tier-sg'', ''app-tier-sg'')} \<subseteq> measure rank"
    by (simp add: rank_def)
  then have "wf {(''app-tier-sg'', ''web-tier-sg''), (''db-tier-sg'', ''app-tier-sg'')}"
    by (rule wf_subset [OF wf_measure])
  then show ?thesis by (rule wf_acyclic)
qed


section \<open>Correctness of the cycle check\<close>

lemma chain_reach:
  "chain es (a # path) \<Longrightarrow> x \<in> set path \<Longrightarrow> (x, a) \<in> (set es)\<^sup>+"
proof (induction path arbitrary: a)
  case Nil
  then show ?case by simp
next
  case (Cons y ys)
  then have edge: "(y, a) \<in> set es" and rest: "chain es (y # ys)" by simp_all
  show ?case
  proof (cases "x = y")
    case True
    with edge show ?thesis by auto
  next
    case False
    with Cons.prems have "x \<in> set ys" by simp
    from Cons.IH [OF rest this] edge show ?thesis by (rule trancl_into_trancl)
  qed
qed

lemma first_some_Some:
  "first_some f xs = Some y \<Longrightarrow> \<exists>x\<in>set xs. f x = Some y"
  by (induction xs) (auto split: option.splits)

lemma first_some_None_iff:
  "first_some f xs = None \<longleftrightarrow> (\<forall>x\<in>set xs. f x = None)"
  by (induction xs) (auto split: option.splits)

lemma successors_iff: "s \<in> set (successors es a) \<longleftrightarrow> (a, s) \<in> set es"
  by (force simp: successors_def)

lemma dfs_sound:
  "dfs n es path a = Some c \<Longrightarrow> chain es (a # path) \<Longrightarrow> \<exists>x. (x, x) \<in> (set es)\<^sup>+"
proof (induction n arbitrary: path a)
  case 0
  then show ?case by simp
next
  case (Suc n)
  show ?case
  proof (cases "a \<in> set path")
    case True
    from chain_reach [OF Suc.prems(2) True] show ?thesis by blast
  next
    case False
    with Suc.prems(1) have "first_some (dfs n es (a # path)) (successors es a) = Some c"
      by simp
    then obtain s where s: "s \<in> set (successors es a)" "dfs n es (a # path) s = Some c"
      by (blast dest: first_some_Some)
    then have "chain es (s # a # path)"
      using Suc.prems(2) by (simp add: successors_iff)
    from Suc.IH [OF s(2) this] show ?thesis .
  qed
qed

lemma doomed_step:
  assumes "doomed es a"
  shows "\<exists>s. (a, s) \<in> set es \<and> doomed es s"
proof -
  from assms obtain x where x: "(a, x) \<in> (set es)\<^sup>*" "(x, x) \<in> (set es)\<^sup>+"
    by (auto simp: doomed_def)
  then have "(a, x) \<in> (set es)\<^sup>+"
    by (metis rtranclD)
  then obtain s where "(a, s) \<in> set es" "(s, x) \<in> (set es)\<^sup>*"
    by (blast dest: tranclD)
  with x(2) show ?thesis by (auto simp: doomed_def)
qed

lemma dfs_complete:
  assumes "doomed es a" "distinct path" "set path \<subseteq> V" "a \<in> V" "snd ` set es \<subseteq> V"
    "finite V" "card V < n + length path"
  shows "dfs n es path a \<noteq> None"
  using assms
proof (induction n arbitrary: path a)
  case 0
  have "length path = card (set path)"
    using "0.prems"(2) by (simp add: distinct_card)
  also have "\<dots> \<le> card V"
    using "0.prems"(3,6) by (simp add: card_mono)
  finally show ?case using "0.prems"(7) by simp
next
  case (Suc n)
  show ?case
  proof (cases "a \<in> set path")
    case True
    then show ?thesis by simp
  next
    case False
    from doomed_step [OF Suc.prems(1)] obtain s where s: "(a, s) \<in> set es" "doomed es s"
      by blast
    then have sV: "s \<in> V" using Suc.prems(5) by force
    have "dfs n es (a # path) s \<noteq> None"
      using Suc.prems False s(2) sV by (intro Suc.IH) auto
    moreover have "s \<in> set (successors es a)"
      using s(1) by (simp add: successors_iff)
    ultimately have "first_some (dfs n es (a # path)) (successors es a) \<noteq> None"
      by (auto simp: first_some_None_iff)
    with False show ?thesis by simp
  qed
qed

lemma sg_edges_nodes:
  "(a, b) \<in> set (sg_edges m) \<Longrightarrow> a \<in> set (sg_names m) \<and> b \<in> set (sg_names m)"
  by (auto simp: sg_edges_def sg_names_def)

lemma find_cycle_None_iff: "find_cycle m = None \<longleftrightarrow> acyclic (set (sg_edges m))"
proof
  assume none: "find_cycle m = None"
  show "acyclic (set (sg_edges m))"
  proof (rule acyclicI, rule allI, rule notI)
    fix x assume cyc: "(x, x) \<in> (set (sg_edges m))\<^sup>+"
    then obtain y where "(x, y) \<in> set (sg_edges m)" by (blast dest: tranclD)
    then have xin: "x \<in> set (sg_names m)" by (blast dest: sg_edges_nodes)
    have "doomed (sg_edges m) x" using cyc by (auto simp: doomed_def)
    then have "dfs (Suc (length (sg_names m))) (sg_edges m) [] x \<noteq> None"
    proof (rule dfs_complete [where V = "set (sg_names m)"])
      show "snd ` set (sg_edges m) \<subseteq> set (sg_names m)"
        by (auto dest: sg_edges_nodes)
      show "card (set (sg_names m)) < Suc (length (sg_names m)) + length []"
        using card_length [of "sg_names m"] by simp
    qed (use xin in simp_all)
    with none xin show False
      by (auto simp: find_cycle_def first_some_None_iff)
  qed
next
  assume acyc: "acyclic (set (sg_edges m))"
  show "find_cycle m = None"
  proof (rule ccontr)
    assume "find_cycle m \<noteq> None"
    then obtain c where "find_cycle m = Some c" by auto
    then obtain a where "dfs (Suc (length (sg_names m))) (sg_edges m) [] a = Some c"
      unfolding find_cycle_def by (blast dest: first_some_Some)
    from dfs_sound [OF this] have "\<exists>x. (x, x) \<in> (set (sg_edges m))\<^sup>+" by simp
    with acyc show False by (auto simp: acyclic_def)
  qed
qed

lemma reports_iff: "reports_SecurityGroupCycle m \<longleftrightarrow> \<not> acyclic (set (sg_edges m))"
  using find_cycle_None_iff [of m]
  by (auto simp: reports_SecurityGroupCycle_def check_security_group_cycle_def
      split: option.splits)

text \<open>
  C8. A model whose security groups form a reference cycle gets a
  \<open>SecurityGroupCycle\<close> violation from the check, and a model whose references have no
  cycle, such as the chain from the web tier to the database tier, gets none.
\<close>

theorem cycle_rejection:
  "(\<not> acyclic (set (sg_edges m)) \<longrightarrow> reports_SecurityGroupCycle m) \<and>
   (acyclic (set (sg_edges m)) \<longrightarrow> \<not> reports_SecurityGroupCycle m)"
  by (simp add: reports_iff)

lemma sg_edges_cyclicModel: "sg_edges cyclicModel = [(''A'', ''B''), (''B'', ''A'')]"
  by (simp add: sg_edges_def sg_names_def cyclicModel_def)

lemma sg_edges_defaultModel:
  "sg_edges defaultModel = [(''app-tier-sg'', ''web-tier-sg''), (''db-tier-sg'', ''app-tier-sg'')]"
  by (simp add: sg_edges_def sg_names_def defaultModel_def)

theorem cycle_rejection_witness:
  "\<not> acyclic (set (sg_edges cyclicModel)) \<and> reports_SecurityGroupCycle cyclicModel \<and>
   acyclic (set (sg_edges defaultModel)) \<and> \<not> reports_SecurityGroupCycle defaultModel"
proof -
  have "(''A'', ''B'') \<in> set (sg_edges cyclicModel)" "(''B'', ''A'') \<in> set (sg_edges cyclicModel)"
    by (simp_all add: sg_edges_cyclicModel)
  then have "(''A'', ''A'') \<in> (set (sg_edges cyclicModel))\<^sup>+"
    by (rule trancl_into_trancl [OF r_into_trancl])
  then have cyc: "\<not> acyclic (set (sg_edges cyclicModel))"
    by (auto simp: acyclic_def)
  have acyc: "acyclic (set (sg_edges defaultModel))"
    using acyclic_tier_chain by (simp add: sg_edges_defaultModel)
  from cycle_rejection [of cyclicModel, THEN conjunct1, THEN mp, OF cyc]
    cycle_rejection [of defaultModel, THEN conjunct2, THEN mp, OF acyc] cyc acyc
  show ?thesis by blast
qed

section \<open>The reported members form a cycle\<close>

lemma chain_prefix: "chain es (xs @ ys) \<Longrightarrow> chain es xs"
  by (induction es xs rule: chain.induct) auto

lemma chain_head_edge: "chain es (a # x # xs) \<Longrightarrow> (x, a) \<in> set es"
  by simp

lemma chain_tail: "chain es (x # xs) \<Longrightarrow> chain es xs"
  by (cases xs) simp_all

lemma closing_cycle:
  assumes "chain es (a # path)" "a \<in> set path"
  shows "is_cycle es (a # rev (takeWhile (\<lambda>x. x \<noteq> a) path))"
proof -
  obtain before rest where path: "path = before @ a # rest" and fresh: "a \<notin> set before"
    using split_list_first [OF assms(2)] by blast
  have "takeWhile (\<lambda>x. x \<noteq> a) before = before"
    using fresh by (auto simp: takeWhile_eq_all_conv)
  then have tw: "takeWhile (\<lambda>x. x \<noteq> a) path = before"
    by (simp add: path takeWhile_tail)
  have "chain es ((before @ [a]) @ rest)"
    using chain_tail [OF assms(1)] path by simp
  then have walk: "chain es (before @ [a])"
    by (rule chain_prefix)
  have "(last (a # rev before), a) \<in> set es"
  proof (cases before)
    case Nil
    with assms(1) path show ?thesis by simp
  next
    case (Cons y ys)
    with assms(1) path have "(y, a) \<in> set es" by simp
    then show ?thesis using Cons by simp
  qed
  with walk show ?thesis by (simp add: is_cycle_def tw)
qed

lemma dfs_reports_cycle:
  "dfs n es path a = Some c \<Longrightarrow> chain es (a # path) \<Longrightarrow> is_cycle es c"
proof (induction n arbitrary: path a)
  case 0
  then show ?case by simp
next
  case (Suc n)
  show ?case
  proof (cases "a \<in> set path")
    case True
    with Suc.prems(1) have "c = a # rev (takeWhile (\<lambda>x. x \<noteq> a) path)" by simp
    then show ?thesis using closing_cycle [OF Suc.prems(2) True] by simp
  next
    case False
    with Suc.prems(1) have "first_some (dfs n es (a # path)) (successors es a) = Some c"
      by simp
    then obtain s where s: "s \<in> set (successors es a)" "dfs n es (a # path) s = Some c"
      by (blast dest: first_some_Some)
    then have "chain es (s # a # path)"
      using Suc.prems(2) by (simp add: successors_iff)
    from Suc.IH [OF s(2) this] show ?thesis .
  qed
qed

lemma find_cycle_reports_cycle: "find_cycle m = Some c \<Longrightarrow> is_cycle (sg_edges m) c"
proof -
  assume "find_cycle m = Some c"
  then obtain a where "dfs (Suc (length (sg_names m))) (sg_edges m) [] a = Some c"
    unfolding find_cycle_def by (blast dest: first_some_Some)
  then show ?thesis by (rule dfs_reports_cycle) simp
qed

section \<open>The tokenizer reads what \<^verbatim>\<open>JSON.stringify\<close> writes\<close>

lemma cons_token_simps [simp]:
  "cons_token t None = None" "cons_token t (Some ts) = Some (t # ts)"
  by (simp_all add: cons_token_def)

lemma append_tokens_simps [simp]:
  "append_tokens [] r = r"
  "append_tokens (t # ts) r = cons_token t (append_tokens ts r)"
  "append_tokens (ts @ us) r = append_tokens ts (append_tokens us r)"
  by (cases r; simp add: append_tokens_def cons_token_def)+

lemma tokenize_whitespace:
  "list_all is_whitespace ws \<Longrightarrow> tokenize Start (ws @ rest) = tokenize Start rest"
  by (induction ws) (simp_all add: start_action_def)

lemma tokenize_number_end:
  "number_end rest \<Longrightarrow>
   tokenize (InNumber neg n) rest = cons_token (TNumber (signed neg n)) (tokenize Start rest)"
  by (cases rest) (auto simp: number_end_def split: action.splits)

lemma tokenize_digits:
  "list_all is_digit ds \<Longrightarrow>
   tokenize (InNumber neg a) (ds @ rest) = tokenize (InNumber neg (read_digits a ds)) rest"
  by (induction ds arbitrary: a) (simp_all add: read_digits_def)

lemma decimal_digits_read_back:
  "list_all (\<lambda>n. is_digit (digit_char n) \<and> digit_value (digit_char n) = n) [0..<10]"
  by (simp add: upt_rec is_digit_def digit_value_def digit_char_def)

lemma is_digit_digit_char: "n < 10 \<Longrightarrow> is_digit (digit_char n)"
  using decimal_digits_read_back by (simp add: list_all_iff)

lemma digit_value_digit_char: "n < 10 \<Longrightarrow> digit_value (digit_char n) = n"
  using decimal_digits_read_back by (simp add: list_all_iff)

lemma show_nat_digits: "list_all is_digit (show_nat n) \<and> show_nat n \<noteq> []"
proof (induction n rule: show_nat.induct)
  case (1 n)
  show ?case
  proof (cases "n < 10")
    case True
    then show ?thesis by (simp add: show_nat.simps [of n] is_digit_digit_char)
  next
    case False
    with 1 show ?thesis by (simp add: show_nat.simps [of n] is_digit_digit_char)
  qed
qed

lemma read_digits_show_nat: "read_digits 0 (show_nat n) = n"
proof (induction n rule: show_nat.induct)
  case (1 n)
  show ?case
  proof (cases "n < 10")
    case True
    then show ?thesis
      by (simp add: show_nat.simps [of n] read_digits_def digit_value_digit_char)
  next
    case False
    with 1 have "read_digits 0 (show_nat (n div 10)) = n div 10" by simp
    with False show ?thesis
      by (simp add: show_nat.simps [of n] read_digits_def digit_value_digit_char)
  qed
qed

lemma tokenize_show_nat_Start:
  assumes "number_end rest"
  shows "tokenize Start (show_nat n @ rest) = cons_token (TNumber (int n)) (tokenize Start rest)"
proof -
  obtain d ds where ds: "show_nat n = d # ds"
    using show_nat_digits [of n] by (cases "show_nat n") auto
  then have dig: "is_digit d" "list_all is_digit ds"
    using show_nat_digits [of n] by simp_all
  have nm: "d \<noteq> CHR ''-''" "\<not> is_whitespace d" "d \<noteq> CHR 0x22"
    "d \<noteq> CHR ''{''" "d \<noteq> CHR ''}''" "d \<noteq> CHR ''[''" "d \<noteq> CHR '']''" "d \<noteq> CHR '':''" "d \<noteq> CHR '',''"
    using dig(1) by (auto simp: is_digit_def is_whitespace_def)
  have "read_digits (digit_value d) ds = read_digits 0 (d # ds)"
    by (simp add: read_digits_def)
  also have "\<dots> = n" using read_digits_show_nat [of n] ds by simp
  finally have val: "read_digits (digit_value d) ds = n" .
  have "tokenize Start (show_nat n @ rest) = tokenize (InNumber False (digit_value d)) (ds @ rest)"
    using dig(1) nm by (simp add: ds start_action_def)
  also have "\<dots> = tokenize (InNumber False n) rest"
    using tokenize_digits [OF dig(2)] val by simp
  finally show ?thesis
    using tokenize_number_end [OF assms] by (simp add: signed_def)
qed

lemma tokenize_show_nat_Minus:
  assumes "number_end rest"
  shows "tokenize InMinus (show_nat n @ rest) = cons_token (TNumber (- int n)) (tokenize Start rest)"
proof -
  obtain d ds where ds: "show_nat n = d # ds"
    using show_nat_digits [of n] by (cases "show_nat n") auto
  then have dig: "is_digit d" "list_all is_digit ds"
    using show_nat_digits [of n] by simp_all
  have "read_digits (digit_value d) ds = read_digits 0 (d # ds)"
    by (simp add: read_digits_def)
  also have "\<dots> = n" using read_digits_show_nat [of n] ds by simp
  finally have val: "read_digits (digit_value d) ds = n" .
  have "tokenize InMinus (show_nat n @ rest) = tokenize (InNumber True (digit_value d)) (ds @ rest)"
    using dig(1) by (simp add: ds)
  also have "\<dots> = tokenize (InNumber True n) rest"
    using tokenize_digits [OF dig(2)] val by simp
  finally show ?thesis
    using tokenize_number_end [OF assms] by (simp add: signed_def)
qed

lemma tokenize_number:
  assumes "number_end rest"
  shows "tokenize Start (number_to_string n @ rest) = cons_token (TNumber n) (tokenize Start rest)"
proof (cases "n < 0")
  case True
  have "tokenize Start (number_to_string n @ rest) = tokenize InMinus (show_nat (nat (- n)) @ rest)"
    using True by (simp add: number_to_string_def start_action_def is_whitespace_def)
  then show ?thesis
    using tokenize_show_nat_Minus [OF assms, of "nat (- n)"] True by simp
next
  case False
  then show ?thesis
    using tokenize_show_nat_Start [OF assms, of "nat n"] by (simp add: number_to_string_def)
qed

section \<open>Strings\<close>

lemma hex_digits_read_back:
  "list_all (\<lambda>n. hex_value (hex_digit n) = Some n) [0..<16]"
  by (simp add: upt_rec hex_value_def hex_digit_def is_digit_def)

lemma hex_value_hex_digit: "n < 16 \<Longrightarrow> hex_value (hex_digit n) = Some n"
  using hex_digits_read_back by (simp add: list_all_iff)

lemma tokenize_unicode_escape:
  assumes "(of_char c :: nat) < 32"
  shows "tokenize (InString acc)
           ([CHR 0x5C, CHR ''u'', CHR ''0'', CHR ''0'',
             hex_digit (of_char c div 16), hex_digit (of_char c mod 16)] @ cs) =
         tokenize (InString (c # acc)) cs"
proof -
  let ?n = "of_char c :: nat"
  have hi: "hex_value (hex_digit (?n div 16)) = Some (?n div 16)"
    using assms by (intro hex_value_hex_digit) simp
  have lo: "hex_value (hex_digit (?n mod 16)) = Some (?n mod 16)"
    by (intro hex_value_hex_digit) simp
  have zero: "hex_value (CHR ''0'') = Some 0"
    by (simp add: hex_value_def is_digit_def)
  have code: "16 * (?n div 16) + ?n mod 16 = ?n" by simp
  have small: "?n < 256" using assms by simp
  show ?thesis
    using small by (simp add: hi lo zero code Let_def)
qed

lemma tokenize_escape:
  "tokenize (InString acc) (json_escape c @ cs) = tokenize (InString (c # acc)) cs"
proof -
  consider (b) "c = CHR 0x08" | (t) "c = CHR 0x09" | (n) "c = CHR 0x0A" | (f) "c = CHR 0x0C"
    | (r) "c = CHR 0x0D" | (q) "c = CHR 0x22" | (s) "c = CHR 0x5C"
    | (u) "c \<notin> {CHR 0x08, CHR 0x09, CHR 0x0A, CHR 0x0C, CHR 0x0D, CHR 0x22, CHR 0x5C}"
          "(of_char c :: nat) < 32"
    | (plain) "c \<notin> {CHR 0x08, CHR 0x09, CHR 0x0A, CHR 0x0C, CHR 0x0D, CHR 0x22, CHR 0x5C}"
          "\<not> (of_char c :: nat) < 32"
    by blast
  then show ?thesis
  proof cases
    case u
    then have "json_escape c =
        [CHR 0x5C, CHR ''u'', CHR ''0'', CHR ''0'',
         hex_digit (of_char c div 16), hex_digit (of_char c mod 16)]"
      by (simp add: json_escape_def)
    then show ?thesis using tokenize_unicode_escape [OF u(2)] by simp
  next
    case plain
    then have "json_escape c = [c]" by (simp add: json_escape_def)
    then show ?thesis using plain by simp
  qed (simp_all add: json_escape_def unescape_def)
qed

lemma tokenize_string_body:
  "tokenize (InString acc) (concat (map json_escape s) @ CHR 0x22 # rest) =
   cons_token (TString (rev acc @ s)) (tokenize Start rest)"
proof (induction s arbitrary: acc)
  case Nil
  then show ?case by simp
next
  case (Cons c s)
  have "tokenize (InString acc) (concat (map json_escape (c # s)) @ CHR 0x22 # rest) =
        tokenize (InString acc) (json_escape c @ (concat (map json_escape s) @ CHR 0x22 # rest))"
    by simp
  also have "\<dots> = tokenize (InString (c # acc)) (concat (map json_escape s) @ CHR 0x22 # rest)"
    by (rule tokenize_escape)
  also have "\<dots> = cons_token (TString (rev (c # acc) @ s)) (tokenize Start rest)"
    by (rule Cons.IH)
  finally show ?case by simp
qed

lemma tokenize_quoted:
  "tokenize Start (QuoteJSONString s @ rest) = cons_token (TString s) (tokenize Start rest)"
  using tokenize_string_body [of "[]" s rest]
  by (simp add: QuoteJSONString_def start_action_def is_whitespace_def)

section \<open>Values\<close>

lemma number_end_simps [simp]:
  "number_end []" "number_end (CHR '','' # cs)" "number_end (nl @ cs)"
  by (simp_all add: number_end_def nl_def is_digit_def)

lemma whitespace_nl_gap [simp]:
  "list_all is_whitespace nl" "list_all is_whitespace gap"
  by (simp_all add: nl_def gap_def is_whitespace_def)

lemma tokenize_join:
  assumes elem: "\<And>x rest. x \<in> set xs \<Longrightarrow> number_end rest \<Longrightarrow>
      tokenize Start (pr x @ rest) = append_tokens (tk x) (tokenize Start rest)"
    and ws: "list_all is_whitespace w"
    and rest: "number_end rest"
  shows "tokenize Start (join ('','' @ w) (map pr xs) @ rest) =
         append_tokens (separated (map tk xs)) (tokenize Start rest)"
  using elem
proof (induction xs rule: induct_list012)
  case 1
  then show ?case by simp
next
  case (2 x)
  then show ?case using rest by simp
next
  case (3 x y zs)
  have tail: "tokenize Start (join ('','' @ w) (map pr (y # zs)) @ rest) =
      append_tokens (separated (map tk (y # zs))) (tokenize Start rest)"
    using "3.prems" by (intro "3.IH"(2)) simp_all
  have "tokenize Start (join ('','' @ w) (map pr (x # y # zs)) @ rest) =
        tokenize Start (pr x @ (CHR '','' # w @ join ('','' @ w) (map pr (y # zs)) @ rest))"
    by simp
  also have "\<dots> = append_tokens (tk x)
      (tokenize Start (CHR '','' # w @ join ('','' @ w) (map pr (y # zs)) @ rest))"
    by (rule "3.prems") simp_all
  also have "tokenize Start (CHR '','' # w @ join ('','' @ w) (map pr (y # zs)) @ rest) =
      cons_token TComma (tokenize Start (w @ join ('','' @ w) (map pr (y # zs)) @ rest))"
    by (simp add: start_action_def is_whitespace_def)
  also have "tokenize Start (w @ join ('','' @ w) (map pr (y # zs)) @ rest) =
      tokenize Start (join ('','' @ w) (map pr (y # zs)) @ rest)"
    by (rule tokenize_whitespace [OF ws])
  finally show ?case using tail by simp
qed

lemma tokenize_open:
  assumes "list_all is_whitespace w"
  shows "tokenize Start (CHR ''['' # w @ rest) = cons_token TLBracket (tokenize Start rest)"
    and "tokenize Start (CHR ''{'' # w @ rest) = cons_token TLBrace (tokenize Start rest)"
  using tokenize_whitespace [OF assms, of rest]
  by (simp_all add: start_action_def is_whitespace_def)

lemma tokenize_close:
  assumes "list_all is_whitespace w"
  shows "tokenize Start (w @ CHR '']'' # rest) = cons_token TRBracket (tokenize Start rest)"
    and "tokenize Start (w @ CHR ''}'' # rest) = cons_token TRBrace (tokenize Start rest)"
  using tokenize_whitespace [OF assms, of "CHR '']'' # rest"]
    tokenize_whitespace [OF assms, of "CHR ''}'' # rest"]
  by (simp_all add: start_action_def is_whitespace_def)

lemma tokenize_empty:
  "tokenize Start (''[]'' @ rest) = cons_token TLBracket (cons_token TRBracket (tokenize Start rest))"
  "tokenize Start (''{}'' @ rest) = cons_token TLBrace (cons_token TRBrace (tokenize Start rest))"
  by (simp_all add: start_action_def is_whitespace_def)

lemma tokenize_bool:
  "tokenize Start ((if b then ''true'' else ''false'') @ rest) =
   cons_token (TBool b) (tokenize Start rest)"
  by (simp add: start_action_def is_whitespace_def is_digit_def)

lemma tokenize_colon:
  "tokenize Start ('': '' @ rest) = cons_token TColon (tokenize Start rest)"
  by (simp add: start_action_def is_whitespace_def)

lemma tokenize_value:
  "list_all is_whitespace ind \<Longrightarrow> number_end rest \<Longrightarrow>
   tokenize Start (SerializeJSONProperty ind v @ rest) =
   append_tokens (tokens_of v) (tokenize Start rest)"
proof (induction v arbitrary: ind rest)
  case (JNumber n)
  then show ?case by (simp add: tokenize_number)
next
  case (JString s)
  then show ?case by (simp add: tokenize_quoted)
next
  case (JBool b)
  show ?case using tokenize_bool [of b rest] by simp
next
  case (JArray vs)
  show ?case
  proof (cases "vs = []")
    case True
    then show ?thesis using tokenize_empty(1) [of rest] by simp
  next
    case False
    let ?ind = "ind @ gap"
    let ?w = "nl @ ?ind"
    have ws: "list_all is_whitespace ?w" "list_all is_whitespace (nl @ ind)"
      using JArray.prems(1) by simp_all
    have elems: "tokenize Start
        (join ('','' @ ?w) (map (SerializeJSONProperty ?ind) vs) @ (nl @ ind @ '']'' @ rest)) =
        append_tokens (separated (map tokens_of vs)) (tokenize Start (nl @ ind @ '']'' @ rest))"
    proof (rule tokenize_join [OF _ ws(1)])
      fix x r assume "x \<in> set vs" "number_end r"
      then show "tokenize Start (SerializeJSONProperty ?ind x @ r) =
          append_tokens (tokens_of x) (tokenize Start r)"
        using JArray.prems(1) by (intro JArray.IH) simp_all
    qed simp
    have "SerializeJSONProperty ind (JArray vs) @ rest =
        CHR ''['' # ?w @
        (join ('','' @ ?w) (map (SerializeJSONProperty ?ind) vs) @ (nl @ ind @ '']'' @ rest))"
      using False by simp
    then have "tokenize Start (SerializeJSONProperty ind (JArray vs) @ rest) =
        cons_token TLBracket (append_tokens (separated (map tokens_of vs))
          (tokenize Start ((nl @ ind) @ CHR '']'' # rest)))"
      using tokenize_open(1) [OF ws(1)] elems by simp
    then show ?thesis
      using tokenize_close(1) [OF ws(2), of rest] by simp
  qed
next
  case (JObject kvs)
  show ?case
  proof (cases "kvs = []")
    case True
    then show ?thesis using tokenize_empty(2) [of rest] by simp
  next
    case False
    let ?ind = "ind @ gap"
    let ?w = "nl @ ?ind"
    let ?pr = "\<lambda>(k, v). QuoteJSONString k @ '': '' @ SerializeJSONProperty ?ind v"
    let ?tk = "\<lambda>(k, v). TString k # TColon # tokens_of v"
    have ws: "list_all is_whitespace ?w" "list_all is_whitespace (nl @ ind)"
      using JObject.prems(1) by simp_all
    have elems: "tokenize Start
        (join ('','' @ ?w) (map ?pr kvs) @ (nl @ ind @ ''}'' @ rest)) =
        append_tokens (separated (map ?tk kvs)) (tokenize Start (nl @ ind @ ''}'' @ rest))"
    proof (rule tokenize_join [OF _ ws(1)])
      fix x r assume x: "x \<in> set kvs" "number_end r"
      obtain k v where kv: "x = (k, v)" by (cases x)
      have "tokenize Start (SerializeJSONProperty ?ind v @ r) =
          append_tokens (tokens_of v) (tokenize Start r)"
        using x kv JObject.prems(1) by (intro JObject.IH [of x v]) simp_all
      then show "tokenize Start (?pr x @ r) = append_tokens (?tk x) (tokenize Start r)"
        using tokenize_quoted [of k "'': '' @ SerializeJSONProperty ?ind v @ r"]
          tokenize_colon [of "SerializeJSONProperty ?ind v @ r"]
        by (simp add: kv)
    qed simp
    have "SerializeJSONProperty ind (JObject kvs) @ rest =
        CHR ''{'' # ?w @ (join ('','' @ ?w) (map ?pr kvs) @ (nl @ ind @ ''}'' @ rest))"
      using False by simp
    then have "tokenize Start (SerializeJSONProperty ind (JObject kvs) @ rest) =
        cons_token TLBrace (append_tokens (separated (map ?tk kvs))
          (tokenize Start ((nl @ ind) @ CHR ''}'' # rest)))"
      using tokenize_open(2) [OF ws(1)] elems by simp
    then show ?thesis
      using tokenize_close(2) [OF ws(2), of rest] by simp
  qed
qed

lemma tokenize_stringify: "tokenize Start (JSON_stringify v) = Some (tokens_of v)"
  using tokenize_value [of "[]" "[]" v] by (simp add: JSON_stringify_def append_tokens_def)

section \<open>Parsing the tokens of a value\<close>

lemma continue_with_simps [simp]:
  "continue_with ts None = None" "continue_with ts (Some s) = parse_tokens ts s"
  by (simp_all add: continue_with_def)

lemma parse_tokens_Open [simp]:
  "parse_tokens (t # ts) (Open st) = continue_with ts (parse_step t st)"
  by (simp add: continue_with_def)

declare parse_tokens.simps(4) [simp del]

lemma parse_step_string:
  "expects_value st \<Longrightarrow> parse_step (TString s) st = push_value (JString s) st"
  by (induction st rule: expects_value.induct) simp_all

lemma parse_elements:
  assumes elem: "\<And>v st ts. v \<in> set vs \<Longrightarrow> expects_value st \<Longrightarrow>
      parse_tokens (tokens_of v @ ts) (Open st) = continue_with ts (push_value v st)"
    and "vs \<noteq> []" and "array_frame fr acc"
  shows "parse_tokens (separated (map tokens_of vs) @ ts) (Open (fr # st)) =
         parse_tokens ts (Open (AValue (acc @ vs) # st))"
  using assms
proof (induction vs arbitrary: fr acc rule: induct_list012)
  case 1
  then show ?case by simp
next
  case (2 x)
  have "parse_tokens (tokens_of x @ ts) (Open (fr # st)) =
      continue_with ts (push_value x (fr # st))"
    using "2.prems"(3) by (intro "2.prems"(1)) (auto simp: array_frame_def)
  then show ?case using "2.prems"(3) by (auto simp: array_frame_def)
next
  case (3 x y zs)
  have "parse_tokens (tokens_of x @ (TComma # separated (map tokens_of (y # zs)) @ ts))
          (Open (fr # st)) =
      continue_with (TComma # separated (map tokens_of (y # zs)) @ ts) (push_value x (fr # st))"
    using "3.prems"(3) by (intro "3.prems"(1)) (auto simp: array_frame_def)
  also have "push_value x (fr # st) = Some (Open (AValue (acc @ [x]) # st))"
    using "3.prems"(3) by (auto simp: array_frame_def)
  finally have "parse_tokens (separated (map tokens_of (x # y # zs)) @ ts) (Open (fr # st)) =
      parse_tokens (separated (map tokens_of (y # zs)) @ ts) (Open (AComma (acc @ [x]) # st))"
    by simp
  also have "\<dots> = parse_tokens ts (Open (AValue ((acc @ [x]) @ y # zs) # st))"
  proof (rule "3.IH"(2))
    fix v' st' ts'
    assume "v' \<in> set (y # zs)" "expects_value st'"
    then show "parse_tokens (tokens_of v' @ ts') (Open st') =
        continue_with ts' (push_value v' st')"
      by (intro "3.prems"(1)) auto
  qed (simp_all add: array_frame_def)
  finally show ?case by simp
qed

lemma parse_members:
  assumes elem: "\<And>k v st ts. (k, v) \<in> set kvs \<Longrightarrow> expects_value st \<Longrightarrow>
      parse_tokens (tokens_of v @ ts) (Open st) = continue_with ts (push_value v st)"
    and "kvs \<noteq> []" and "object_frame fr acc"
  shows "parse_tokens
           (separated (map (\<lambda>(k, v). TString k # TColon # tokens_of v) kvs) @ ts)
           (Open (fr # st)) =
         parse_tokens ts (Open (OValue (acc @ kvs) # st))"
  using assms
proof (induction kvs arbitrary: fr acc rule: induct_list012)
  case 1
  then show ?case by simp
next
  case (2 x)
  obtain k v where kv: "x = (k, v)" by (cases x)
  have key: "parse_step (TString k) (fr # st) = Some (Open (OKey acc k # st))"
    using "2.prems"(3) by (auto simp: object_frame_def)
  have "parse_tokens (tokens_of v @ ts) (Open (OColon acc k # st)) =
      continue_with ts (push_value v (OColon acc k # st))"
    using kv by (intro "2.prems"(1) [of k v]) simp_all
  then show ?case by (simp add: kv key)
next
  case (3 x y zs)
  obtain k v where kv: "x = (k, v)" by (cases x)
  let ?later = "TComma # separated (map (\<lambda>(k, v). TString k # TColon # tokens_of v) (y # zs)) @ ts"
  have key: "parse_step (TString k) (fr # st) = Some (Open (OKey acc k # st))"
    using "3.prems"(3) by (auto simp: object_frame_def)
  have "parse_tokens (tokens_of v @ ?later) (Open (OColon acc k # st)) =
      continue_with ?later (push_value v (OColon acc k # st))"
    using kv by (intro "3.prems"(1) [of k v]) simp_all
  then have "parse_tokens
      (separated (map (\<lambda>(k, v). TString k # TColon # tokens_of v) (x # y # zs)) @ ts)
      (Open (fr # st)) =
      parse_tokens (separated (map (\<lambda>(k, v). TString k # TColon # tokens_of v) (y # zs)) @ ts)
        (Open (OComma (acc @ [x]) # st))"
    by (simp add: kv key)
  also have "\<dots> = parse_tokens ts (Open (OValue ((acc @ [x]) @ y # zs) # st))"
  proof (rule "3.IH"(2))
    fix k' v' st' ts'
    assume "(k', v') \<in> set (y # zs)" "expects_value st'"
    then show "parse_tokens (tokens_of v' @ ts') (Open st') =
        continue_with ts' (push_value v' st')"
      by (intro "3.prems"(1) [of k' v']) auto
  qed (simp_all add: object_frame_def)
  finally show ?case by simp
qed

lemma parse_close_array:
  "parse_tokens (TRBracket # ts) (Open (AValue vs # st)) = continue_with ts (push_value (JArray vs) st)"
  "parse_tokens (TRBracket # ts) (Open (AOpen # st)) = continue_with ts (push_value (JArray []) st)"
  by simp_all

lemma parse_close_object:
  "parse_tokens (TRBrace # ts) (Open (OValue kvs # st)) = continue_with ts (push_value (JObject kvs) st)"
  "parse_tokens (TRBrace # ts) (Open (OOpen # st)) = continue_with ts (push_value (JObject []) st)"
  by simp_all

lemma parse_value:
  "expects_value st \<Longrightarrow>
   parse_tokens (tokens_of v @ ts) (Open st) = continue_with ts (push_value v st)"
proof (induction v arbitrary: st ts)
  case (JNumber n)
  then show ?case by simp
next
  case (JString s)
  then show ?case by (simp add: parse_step_string)
next
  case (JBool b)
  then show ?case by simp
next
  case (JArray vs)
  have opened: "parse_tokens (tokens_of (JArray vs) @ ts) (Open st) =
      parse_tokens (separated (map tokens_of vs) @ (TRBracket # ts)) (Open (AOpen # st))"
    using JArray.prems by simp
  show ?case
  proof (cases "vs = []")
    case True
    then show ?thesis using opened by (simp add: parse_close_array)
  next
    case False
    have "parse_tokens (separated (map tokens_of vs) @ (TRBracket # ts)) (Open (AOpen # st)) =
        parse_tokens (TRBracket # ts) (Open (AValue ([] @ vs) # st))"
      using False JArray.IH by (intro parse_elements) (simp_all add: array_frame_def)
    then show ?thesis using opened by (simp add: parse_close_array)
  qed
next
  case (JObject kvs)
  let ?tk = "\<lambda>(k, v). TString k # TColon # tokens_of v"
  have opened: "parse_tokens (tokens_of (JObject kvs) @ ts) (Open st) =
      parse_tokens (separated (map ?tk kvs) @ (TRBrace # ts)) (Open (OOpen # st))"
    using JObject.prems by simp
  show ?case
  proof (cases "kvs = []")
    case True
    then show ?thesis using opened by (simp add: parse_close_object)
  next
    case False
    have "parse_tokens (separated (map ?tk kvs) @ (TRBrace # ts)) (Open (OOpen # st)) =
        parse_tokens (TRBrace # ts) (Open (OValue ([] @ kvs) # st))"
    proof (rule parse_members [OF _ False])
      fix k v st' ts'
      assume "(k, v) \<in> set kvs" "expects_value st'"
      then show "parse_tokens (tokens_of v @ ts') (Open st') = continue_with ts' (push_value v st')"
        by (intro JObject.IH [of "(k, v)" v]) simp_all
    qed (simp add: object_frame_def)
    then show ?thesis using opened by (simp add: parse_close_object)
  qed
qed

lemma JSON_parse_stringify: "JSON_parse (JSON_stringify v) = Some v"
  using parse_value [of "[]" v "[]"] by (simp add: JSON_parse_def tokenize_stringify)

section \<open>Decoding the object of a model\<close>

lemma those_map_inverse:
  "(\<And>x. x \<in> set xs \<Longrightarrow> f (g x) = Some x) \<Longrightarrow> those (map (\<lambda>x. f (g x)) xs) = Some xs"
  by (induction xs) simp_all

lemma array_of_inverse:
  "(\<And>x. f (g x) = Some x) \<Longrightarrow> array_of f (JArray (map g xs)) = Some xs"
  using those_map_inverse [of xs f g] by (simp add: comp_def)

declare array_of.simps [simp del]

lemma visibility_inverse [simp]: "visibility_of_string (visibility_string t) = Some t"
  by (cases t) (simp_all add: visibility_of_string_def visibility_string_def)

lemma lb_kind_inverse [simp]: "lb_kind_of_string (lb_kind_string k) = Some k"
  by (cases k) (simp_all add: lb_kind_of_string_def lb_kind_string_def)

lemma exposure_inverse [simp]: "exposure_of_string (exposure_string x) = Some x"
  by (cases x) (simp_all add: exposure_of_string_def exposure_string_def)

lemma tier_inverse [simp]: "tier_of_string (tier_string t) = Some t"
  by (cases t) (simp_all add: tier_of_string_def tier_string_def)

lemma vpc_inverse [simp]: "vpc_of_json (vpc_json v) = Some v"
  by (simp add: vpc_of_json_def vpc_json_def fields_def)

lemma subnet_inverse [simp]: "subnet_of_json (subnet_json s) = Some s"
  by (simp add: subnet_of_json_def subnet_json_def fields_def)

lemma rule_inverse [simp]: "rule_of_json (rule_json r) = Some r"
  by (simp add: rule_of_json_def rule_json_def fields_def)

lemma securityGroup_inverse [simp]: "securityGroup_of_json (securityGroup_json g) = Some g"
  by (simp add: securityGroup_of_json_def securityGroup_json_def fields_def array_of_inverse)

lemma loadBalancer_inverse [simp]: "loadBalancer_of_json (loadBalancer_json b) = Some b"
  by (simp add: loadBalancer_of_json_def loadBalancer_json_def fields_def)

lemma ec2Instance_inverse [simp]: "ec2Instance_of_json (ec2Instance_json i) = Some i"
  by (simp add: ec2Instance_of_json_def ec2Instance_json_def fields_def)

lemma rds_inverse [simp]: "rds_of_json (rds_json d) = Some d"
  by (simp add: rds_of_json_def rds_json_def fields_def)

lemma dns_record_inverse [simp]: "dns_record_of_json (dns_record_json r) = Some r"
  by (simp add: dns_record_of_json_def dns_record_json_def fields_def)

lemma route53_inverse [simp]: "route53_of_json (route53_json z) = Some z"
  by (simp add: route53_of_json_def route53_json_def fields_def array_of_inverse)

lemma model_of_json_config_json: "model_of_json (config_json m) = Some m"
  by (simp add: model_of_json_def config_json_def fields_def array_of_inverse)

text \<open>
  C7. Reading back the artifact of a model succeeds and gives the model itself. This
  holds for every model, valid or not.
\<close>

theorem round_trip: "fromArtifact (toCanonicalArtifact m) = Inr m"
  by (simp add: fromArtifact_def toCanonicalArtifact_def JSON_parse_stringify
      model_of_json_config_json)

text \<open>
  The object literal of \<^verbatim>\<open>exportArchitecture\<close> has exactly the properties and the
  nesting of the export schema: the decoder, which accepts nothing else, reads it as the
  default model.
\<close>

lemma architectureConfig_schema: "model_of_json architectureConfig = Some defaultModel"
  using model_of_json_config_json [of defaultModel] by (simp add: config_json_defaultModel)

end
